theory Spec2Isabelle
  imports Complex_Main "HOL-Library.Word" "HOL-Library.AList"
begin

section \<open>Data model of the performance client\<close>

text \<open>
  All C++ integers are modelled at their width: \<open>uint64_t\<close> and \<open>size_t\<close> are
  \<open>64 word\<close>, \<open>uint32_t\<close> is \<open>32 word\<close>, \<open>int\<close> is a \<open>32 word\<close> read with \<open>sint\<close>.  Unsigned
  arithmetic wraps, as \<open>+\<close>, \<open>-\<close> and \<open>*\<close> on words do.  The model version
  (\<open>int64_t\<close>) is only compared, never computed with, and is an \<open>int\<close>.
\<close>

type_synonym u64 = "64 word"
type_synonym u32 = "32 word"
type_synonym i32 = "32 word"

text \<open>\<open>struct timespec\<close>: seconds and nanoseconds of the monotonic clock.\<close>

record timespec =
  tv_sec :: u64
  tv_nsec :: u64

type_synonym TimestampVector = "(timespec \<times> timespec) list"

text \<open>
  Modelled from the spec: \<open>src/core/constants.h\<close> is not among the sources; the spec
  measures time in nanoseconds, so \<open>NANOS_PER_SECOND\<close> is taken as \<open>10^9\<close>.
\<close>

definition NANOS_PER_SECOND :: u64 where
  "NANOS_PER_SECOND = 1000000000"

text \<open>The expression \<open>t.tv_sec * NANOS_PER_SECOND + t.tv_nsec\<close>, computed in 64 bits.\<close>

definition timespec_ns :: "timespec \<Rightarrow> u64" where
  "timespec_ns t = tv_sec t * NANOS_PER_SECOND + tv_nsec t"

record PerfStatus =
  concurrency :: u32
  batch_size :: u64
  server_request_count :: u64
  server_cumm_time_ns :: u64
  server_queue_time_ns :: u64
  server_compute_time_ns :: u64
  client_request_count :: u64
  client_duration_ns :: u64
  client_min_latency_ns :: u64
  client_max_latency_ns :: u64
  client_avg_latency_ns :: u64
  std_us :: u64
  client_avg_request_time_ns :: u64
  client_avg_send_time_ns :: u64
  client_avg_receive_time_ns :: u64
  client_infer_per_sec :: i32

text \<open>\<open>nic::InferContext::Stat\<close>, the per-context accumulators of the client library.\<close>

record Stat =
  completed_request_count :: u64
  cumulative_total_request_time_ns :: u64
  cumulative_send_time_ns :: u64
  cumulative_receive_time_ns :: u64

datatype RequestStatusCode = SUCCESS | INTERNAL | INVALID_ARG | UNAVAILABLE

text \<open>\<open>nic::Error\<close>: a status code and a message.\<close>

datatype Error = Error RequestStatusCode string

fun IsOk :: "Error \<Rightarrow> bool" where
  "IsOk (Error c m) = (c = SUCCESS)"

text \<open>
  The server status messages.  Their protobuf declarations are not among the sources;
  the fields are the ones the two source files read and write.  A protobuf map that the
  code iterates over (\<open>version_status\<close>) is an association list, looked up with
  \<open>map_of\<close>; the others are partial functions.
\<close>

record StatDuration =
  count :: u64
  total_time_ns :: u64

record InferRequestStats =
  success :: StatDuration
  failed :: StatDuration
  compute :: StatDuration
  queue :: StatDuration

datatype ModelReadyState =
  MODEL_UNKNOWN | MODEL_READY | MODEL_UNAVAILABLE | MODEL_LOADING | MODEL_UNLOADING

record ModelVersionStatus =
  ready_state :: ModelReadyState
  model_execution_count :: u64
  model_inference_count :: u64
  infer_stats :: "u32 \<rightharpoonup> InferRequestStats"

record 'c ModelStatus =
  config :: "'c option"
  version_status :: "(int \<times> ModelVersionStatus) list"

text \<open>The fields of \<open>ConcurrencyManager\<close> that the measurement reads.\<close>

record Manager =
  m_profile :: bool
  m_batch_size :: u64
  m_stable_offset :: rat
  m_measurement_window_ms :: u64
  m_max_measurement_count :: u64
  m_async :: bool
  m_model_version :: int

section \<open>Binary floating point\<close>

text \<open>
  A \<open>float\<close> or \<open>double\<close> value is the rational number it denotes.  Every operation
  rounds its exact result to the nearest value with a significand of \<open>p\<close> bits, ties to
  even (\<open>p = 24\<close> for \<open>float\<close>, \<open>p = 53\<close> for \<open>double\<close>).  The exponent is not
  bounded: the magnitudes that occur here (between \<open>2^-64\<close> and \<open>2^128\<close>) are far
  from the overflow and underflow thresholds of both formats.
\<close>

fun bitlen_nat :: "nat \<Rightarrow> nat" where
  "bitlen_nat n = (if n = 0 then 0 else Suc (bitlen_nat (n div 2)))"

declare bitlen_nat.simps [simp del]

definition pow2 :: "int \<Rightarrow> rat" where
  "pow2 e = (if 0 \<le> e then 2 ^ nat e else 1 / 2 ^ nat (- e))"

text \<open>For \<open>x > 0\<close>, the exponent \<open>e\<close> with \<open>2^e \<le> x < 2^(e+1)\<close>.\<close>

definition binexp :: "rat \<Rightarrow> int" where
  "binexp x =
     (if 1 \<le> x then int (bitlen_nat (nat \<lfloor>x\<rfloor>)) - 1
      else - int (bitlen_nat (nat (\<lceil>1 / x\<rceil> - 1))))"

definition round_half_even :: "rat \<Rightarrow> int" where
  "round_half_even y =
     (let m = \<lfloor>y\<rfloor>; r = y - of_int m
      in if r < 1 / 2 then m else if 1 / 2 < r then m + 1
         else if even m then m else m + 1)"

definition rn :: "nat \<Rightarrow> rat \<Rightarrow> rat" where
  "rn p x =
     (if x = 0 then 0
      else let e = binexp \<bar>x\<bar> - int p + 1
           in of_int (round_half_even (x / pow2 e)) * pow2 e)"

abbreviation f32 :: "rat \<Rightarrow> rat" where
  "f32 \<equiv> rn 24"

abbreviation f64 :: "rat \<Rightarrow> rat" where
  "f64 \<equiv> rn 53"

text \<open>
  The conversion \<open>(int) x\<close> truncates towards zero.  Outside the range of \<open>int\<close> the
  C++ standard leaves the result undefined; the model takes the value that the
  conversion instruction of x86-64 delivers there, \<open>-2^31\<close>.
\<close>

definition float_to_int :: "rat \<Rightarrow> i32" where
  "float_to_int x =
     (let t = (if 0 \<le> x then \<lfloor>x\<rfloor> else \<lceil>x\<rceil>)
      in if - (2 ^ 31) \<le> t \<and> t < 2 ^ 31 then word_of_int t else word_of_int (- (2 ^ 31)))"

section \<open>The Sampler: \<open>ConcurrencyManager::Summarize\<close>, client side\<close>

text \<open>
  The first loop of \<open>Summarize\<close>: the start time of the first request and the end time
  of the last one.  Both accumulators start at \<open>0\<close>, which the loop reads as "not yet
  set".
\<close>

fun find_first_last :: "TimestampVector \<Rightarrow> u64 \<Rightarrow> u64 \<Rightarrow> u64 \<times> u64" where
  "find_first_last [] first_request_start_ns last_request_end_ns =
     (first_request_start_ns, last_request_end_ns)"
| "find_first_last (timestamp # rest) first_request_start_ns last_request_end_ns =
     (let request_start_time = timespec_ns (fst timestamp);
          request_end_time = timespec_ns (snd timestamp)
      in find_first_last rest
           (if first_request_start_ns > request_start_time \<or> first_request_start_ns = 0
            then request_start_time else first_request_start_ns)
           (if last_request_end_ns < request_end_time \<or> last_request_end_ns = 0
            then request_end_time else last_request_end_ns))"

definition first_request_start_ns :: "TimestampVector \<Rightarrow> u64" where
  "first_request_start_ns ts = fst (find_first_last ts 0 0)"

definition last_request_end_ns :: "TimestampVector \<Rightarrow> u64" where
  "last_request_end_ns ts = snd (find_first_last ts 0 0)"

definition measurement_window_ns :: "Manager \<Rightarrow> u64" where
  "measurement_window_ns m = m_measurement_window_ms m * 1000 * 1000"

text \<open>The two assignments to \<open>offset\<close>.\<close>

definition window_offset :: "u64 \<Rightarrow> u64 \<Rightarrow> u64 \<Rightarrow> u64" where
  "window_offset first_start last_end window_ns =
     (let offset = first_start + window_ns
      in if offset > last_end then 0 else (last_end - offset) div 2)"

definition client_start_ns :: "Manager \<Rightarrow> TimestampVector \<Rightarrow> u64" where
  "client_start_ns m ts =
     first_request_start_ns ts +
     window_offset (first_request_start_ns ts) (last_request_end_ns ts) (measurement_window_ns m)"

definition client_end_ns :: "Manager \<Rightarrow> TimestampVector \<Rightarrow> u64" where
  "client_end_ns m ts = client_start_ns m ts + measurement_window_ns m"

text \<open>The accumulators of the second loop.\<close>

record LatencyAcc =
  valid_timestamp_count :: u64
  min_latency_ns :: u64
  max_latency_ns :: u64
  tol_latency_ns :: u64
  tol_square_latency_us :: u64

definition init_acc :: LatencyAcc where
  "init_acc = \<lparr>valid_timestamp_count = 0, min_latency_ns = 0, max_latency_ns = 0,
                tol_latency_ns = 0, tol_square_latency_us = 0\<rparr>"

text \<open>The test that guards the body of the second loop.\<close>

definition in_window :: "u64 \<Rightarrow> u64 \<Rightarrow> timespec \<times> timespec \<Rightarrow> bool" where
  "in_window cstart cend timestamp =
     (let request_start_ns = timespec_ns (fst timestamp);
          request_end_ns = timespec_ns (snd timestamp)
      in request_start_ns \<le> request_end_ns \<and>
         request_end_ns \<ge> cstart \<and> request_end_ns \<le> cend)"

definition add_latency :: "u64 \<Rightarrow> LatencyAcc \<Rightarrow> LatencyAcc" where
  "add_latency request_latency a =
     \<lparr>valid_timestamp_count = valid_timestamp_count a + 1,
      min_latency_ns =
        (if request_latency < min_latency_ns a \<or> min_latency_ns a = 0
         then request_latency else min_latency_ns a),
      max_latency_ns =
        (if request_latency > max_latency_ns a \<or> max_latency_ns a = 0
         then request_latency else max_latency_ns a),
      tol_latency_ns = tol_latency_ns a + request_latency,
      tol_square_latency_us =
        tol_square_latency_us a + (request_latency * request_latency) div (1000 * 1000)\<rparr>"

fun measure_window :: "u64 \<Rightarrow> u64 \<Rightarrow> TimestampVector \<Rightarrow> LatencyAcc \<Rightarrow> LatencyAcc" where
  "measure_window cstart cend [] a = a"
| "measure_window cstart cend (timestamp # rest) a =
     measure_window cstart cend rest
       (if in_window cstart cend timestamp
        then add_latency (timespec_ns (snd timestamp) - timespec_ns (fst timestamp)) a
        else a)"

text \<open>
  \<open>client_infer_per_sec\<close>: the duration in seconds is a \<open>float\<close>, the product
  \<open>valid_timestamp_count * batch_size\<close> is computed in \<open>size_t\<close> and converted to
  \<open>float\<close> for the division.  A division by a zero duration gives an infinity or a
  NaN, which the conversion to \<open>int\<close> takes out of range.
\<close>

definition client_duration_sec :: "u64 \<Rightarrow> rat" where
  "client_duration_sec duration_ns =
     f32 (f32 (of_nat (unat duration_ns)) / f32 (of_nat (unat NANOS_PER_SECOND)))"

definition infer_per_sec_of :: "u64 \<Rightarrow> u64 \<Rightarrow> u64 \<Rightarrow> i32" where
  "infer_per_sec_of cnt bs duration_ns =
     (if client_duration_sec duration_ns = 0 then word_of_int (- (2 ^ 31))
      else float_to_int
             (f32 (f32 (of_nat (unat (cnt * bs))) / client_duration_sec duration_ns)))"

text \<open>The variance in square microseconds, as the code computes it.\<close>

definition var_us_of :: "LatencyAcc \<Rightarrow> u64" where
  "var_us_of a =
     (let avg_latency_ns = tol_latency_ns a div valid_timestamp_count a;
          expected_square_latency_us = tol_square_latency_us a div valid_timestamp_count a;
          square_avg_latency_us = (avg_latency_ns * avg_latency_ns) div (1000 * 1000)
      in if expected_square_latency_us > square_avg_latency_us
         then expected_square_latency_us - square_avg_latency_us else 0)"

text \<open>
  The averages of the client library's timers.  The three fields are assigned only
  under the guard \<open>completed_count != 0\<close>; otherwise they keep what the caller's
  \<open>PerfStatus\<close> held.
\<close>

definition context_averages :: "Stat \<Rightarrow> Stat \<Rightarrow> PerfStatus \<Rightarrow> PerfStatus" where
  "context_averages start_stat end_stat summary =
     (let completed_count = completed_request_count end_stat - completed_request_count start_stat;
          request_time_ns = cumulative_total_request_time_ns end_stat
                            - cumulative_total_request_time_ns start_stat;
          send_time_ns = cumulative_send_time_ns end_stat - cumulative_send_time_ns start_stat;
          receive_time_ns = cumulative_receive_time_ns end_stat
                            - cumulative_receive_time_ns start_stat
      in if completed_count \<noteq> 0
         then summary\<lparr>client_avg_request_time_ns := request_time_ns div completed_count,
                      client_avg_send_time_ns := send_time_ns div completed_count,
                      client_avg_receive_time_ns := receive_time_ns div completed_count\<rparr>
         else summary)"

text \<open>
  The client half of \<open>Summarize\<close>.  \<open>sqrt_u64\<close> stands for
  \<open>(uint64_t)(sqrt(var_us))\<close>: the square root is the C library's and is a parameter.
  With no valid timestamp the function returns the error and leaves \<open>summary\<close> as it
  was.
\<close>

definition Summarize_client ::
  "(u64 \<Rightarrow> u64) \<Rightarrow> Manager \<Rightarrow> TimestampVector \<Rightarrow> Stat \<Rightarrow> Stat \<Rightarrow> PerfStatus
     \<Rightarrow> Error + PerfStatus" where
  "Summarize_client sqrt_u64 m current_timestamps start_stat end_stat summary =
     (let cstart = client_start_ns m current_timestamps;
          cend = client_end_ns m current_timestamps;
          duration_ns = cend - cstart;
          a = measure_window cstart cend current_timestamps init_acc
      in if valid_timestamp_count a = 0
         then Inl (Error INTERNAL
                ''No valid requests recorded within time interval. Please use a larger time window.'')
         else Inr (context_averages start_stat end_stat
                (summary\<lparr>batch_size := m_batch_size m,
                         client_request_count := valid_timestamp_count a,
                         client_duration_ns := duration_ns,
                         client_infer_per_sec :=
                           infer_per_sec_of (valid_timestamp_count a) (m_batch_size m) duration_ns,
                         client_min_latency_ns := min_latency_ns a,
                         client_max_latency_ns := max_latency_ns a,
                         client_avg_latency_ns := tol_latency_ns a div valid_timestamp_count a,
                         std_us := sqrt_u64 (var_us_of a)\<rparr>)))"

text \<open>
  The window as the specification words it, over the mathematical integers: \<open>t0\<close> the
  minimum start time, \<open>tN\<close> the maximum end time, \<open>W\<close> the window in nanoseconds,
  \<open>offset = max(0, (tN - (t0 + W)) / 2)\<close>.
\<close>

definition spec_t0 :: "TimestampVector \<Rightarrow> int" where
  "spec_t0 ts = Min ((\<lambda>t. uint (timespec_ns (fst t))) ` set ts)"

definition spec_tN :: "TimestampVector \<Rightarrow> int" where
  "spec_tN ts = Max ((\<lambda>t. uint (timespec_ns (snd t))) ` set ts)"

definition spec_W :: "Manager \<Rightarrow> int" where
  "spec_W m = uint (m_measurement_window_ms m) * 1000000"

definition spec_offset :: "Manager \<Rightarrow> TimestampVector \<Rightarrow> int" where
  "spec_offset m ts = max 0 ((spec_tN ts - (spec_t0 ts + spec_W m)) div 2)"

definition spec_client_start :: "Manager \<Rightarrow> TimestampVector \<Rightarrow> int" where
  "spec_client_start m ts = spec_t0 ts + spec_offset m ts"

definition spec_client_end :: "Manager \<Rightarrow> TimestampVector \<Rightarrow> int" where
  "spec_client_end m ts = spec_client_start m ts + spec_W m"

definition spec_inside :: "Manager \<Rightarrow> TimestampVector \<Rightarrow> timespec \<times> timespec \<Rightarrow> bool" where
  "spec_inside m ts t =
     (let s = uint (timespec_ns (fst t)); e = uint (timespec_ns (snd t))
      in s \<le> e \<and> spec_client_start m ts \<le> e \<and> e \<le> spec_client_end m ts)"

section \<open>The Summary Composer: \<open>ConcurrencyManager::Summarize\<close>, server side\<close>

text \<open>
  The loop over \<open>end_status.version_status()\<close> that finds the highest version, starting
  from \<open>status_model_version = 0\<close>.
\<close>

fun latest_version :: "(int \<times> ModelVersionStatus) list \<Rightarrow> int \<Rightarrow> int" where
  "latest_version [] status_model_version = status_model_version"
| "latest_version (vp # rest) status_model_version =
     latest_version rest (max status_model_version (fst vp))"

definition status_model_version :: "Manager \<Rightarrow> 'c ModelStatus \<Rightarrow> int" where
  "status_model_version m end_status =
     (if m_model_version m < 0 then latest_version (version_status end_status) 0
      else m_model_version m)"

text \<open>
  \<open>infer_stats().find(batch_size_)\<close>: the key of the protobuf map is a \<open>uint32\<close>, the
  batch size a \<open>size_t\<close>.
\<close>

definition find_infer_stats :: "ModelVersionStatus \<Rightarrow> u64 \<Rightarrow> InferRequestStats option" where
  "find_infer_stats vs bs = infer_stats vs (ucast bs)"

text \<open>
  The four start counters \<open>start_cnt\<close>, \<open>start_cumm_time_ns\<close>,
  \<open>start_queue_time_ns\<close> and \<open>start_compute_time_ns\<close>: zero unless the start status
  has the version and the batch size.
\<close>

record Counters =
  cnt :: u64
  cumm_time_ns :: u64
  queue_time_ns :: u64
  compute_time_ns :: u64

definition zero_counters :: Counters where
  "zero_counters = \<lparr>cnt = 0, cumm_time_ns = 0, queue_time_ns = 0, compute_time_ns = 0\<rparr>"

definition counters_of :: "InferRequestStats \<Rightarrow> Counters" where
  "counters_of stats =
     \<lparr>cnt = count (success stats), cumm_time_ns = total_time_ns (success stats),
      queue_time_ns = total_time_ns (queue stats),
      compute_time_ns = total_time_ns (compute stats)\<rparr>"

definition start_counters :: "'c ModelStatus \<Rightarrow> int \<Rightarrow> u64 \<Rightarrow> Counters" where
  "start_counters start_status version bs =
     (case map_of (version_status start_status) version of
        None \<Rightarrow> zero_counters
      | Some vstart \<Rightarrow>
          (case find_infer_stats vstart bs of
             None \<Rightarrow> zero_counters
           | Some start \<Rightarrow> counters_of start))"

text \<open>
  The server half of \<open>Summarize\<close>: the error it ends with and the summary it leaves.
\<close>

definition Summarize_server ::
  "Manager \<Rightarrow> 'c ModelStatus \<Rightarrow> 'c ModelStatus \<Rightarrow> PerfStatus \<Rightarrow> Error \<times> PerfStatus" where
  "Summarize_server m start_status end_status summary =
     (let version = status_model_version m end_status
      in case map_of (version_status end_status) version of
           None \<Rightarrow> (Error INTERNAL ''missing model version status'', summary)
         | Some vend \<Rightarrow>
             (case find_infer_stats vend (m_batch_size m) of
                None \<Rightarrow> (Error INTERNAL ''missing inference stats'', summary)
              | Some end_stats \<Rightarrow>
                  (let start = start_counters start_status version (m_batch_size m)
                   in (Error SUCCESS [],
                       summary\<lparr>server_request_count := count (success end_stats) - cnt start,
                                server_cumm_time_ns :=
                                  total_time_ns (success end_stats) - cumm_time_ns start,
                                server_queue_time_ns :=
                                  total_time_ns (queue end_stats) - queue_time_ns start,
                                server_compute_time_ns :=
                                  total_time_ns (compute end_stats) - compute_time_ns start\<rparr>))))"

text \<open>
  \<open>Summarize\<close>: the drained timestamps, the two server snapshots, the two context-stat
  snapshots and the caller's \<open>PerfStatus\<close>, which the function updates in place.
\<close>

definition Summarize ::
  "(u64 \<Rightarrow> u64) \<Rightarrow> Manager \<Rightarrow> TimestampVector \<Rightarrow> 'c ModelStatus \<Rightarrow> 'c ModelStatus
     \<Rightarrow> Stat \<Rightarrow> Stat \<Rightarrow> PerfStatus \<Rightarrow> Error \<times> PerfStatus" where
  "Summarize sqrt_u64 m current_timestamps start_status end_status start_stat end_stat summary =
     (case Summarize_client sqrt_u64 m current_timestamps start_stat end_stat summary of
        Inl err \<Rightarrow> (err, summary)
      | Inr summary' \<Rightarrow> Summarize_server m start_status end_status summary')"

section \<open>\<open>Report\<close> and the CSV rows of \<open>main\<close>\<close>






section \<open>\<open>ServerStatusManager\<close>\<close>

text \<open>
  The manager's state is its \<open>ServerStatus\<close> message; the operations below touch only
  the map from model names to \<open>ModelStatus\<close>.  The model configuration is opaque.
\<close>

record 'c ServerStatus =
  server_version :: string
  model_status :: "string \<rightharpoonup> 'c ModelStatus"

text \<open>A freshly constructed message, and what \<open>Clear()\<close> leaves.\<close>

definition empty_StatDuration :: StatDuration where
  "empty_StatDuration = \<lparr>count = 0, total_time_ns = 0\<rparr>"

definition empty_InferRequestStats :: InferRequestStats where
  "empty_InferRequestStats =
     \<lparr>success = empty_StatDuration, failed = empty_StatDuration,
      compute = empty_StatDuration, queue = empty_StatDuration\<rparr>"

definition empty_ModelVersionStatus :: ModelVersionStatus where
  "empty_ModelVersionStatus =
     \<lparr>ready_state = MODEL_UNKNOWN, model_execution_count = 0, model_inference_count = 0,
      infer_stats = Map.empty\<rparr>"

definition empty_ModelStatus :: "'c ModelStatus" where
  "empty_ModelStatus = \<lparr>config = None, version_status = []\<rparr>"

text \<open>
  \<open>InitForModel\<close>.  \<open>get_model_config\<close> stands for
  \<open>ModelRepositoryManager::GetModelConfig\<close>, which is outside the two source files; when
  it fails, the function returns its error before it touches the state.  A model that
  is already tracked has its entry cleared; \<open>ms[model_name]\<close> then yields the entry,
  or a fresh one for a new model, and the configuration is copied into it.
\<close>

definition InitForModel ::
  "(string \<Rightarrow> string + 'c) \<Rightarrow> string \<Rightarrow> 'c ServerStatus \<Rightarrow> string + 'c ServerStatus" where
  "InitForModel get_model_config model_name st =
     (case get_model_config model_name of
        Inl err \<Rightarrow> Inl err
      | Inr model_config \<Rightarrow>
          (let ms = model_status st;
               ms' = (if ms model_name = None then ms
                      else ms(model_name \<mapsto> empty_ModelStatus));
               entry = (case ms' model_name of None \<Rightarrow> empty_ModelStatus | Some e \<Rightarrow> e)
           in Inr (st\<lparr>model_status := ms'(model_name \<mapsto> entry\<lparr>config := Some model_config\<rparr>)\<rparr>)))"

text \<open>The statistics written for a batch size that had none.\<close>

definition new_success_stats :: "u64 \<Rightarrow> u64 \<Rightarrow> u64 \<Rightarrow> InferRequestStats \<Rightarrow> InferRequestStats" where
  "new_success_stats request_duration_ns run_duration_ns compute_duration_ns stats =
     stats\<lparr>success := \<lparr>count = 1, total_time_ns = request_duration_ns\<rparr>,
           compute := \<lparr>count = 1, total_time_ns = compute_duration_ns\<rparr>,
           queue := \<lparr>count = 1, total_time_ns = run_duration_ns - compute_duration_ns\<rparr>\<rparr>"

text \<open>The statistics written for a batch size that had some.\<close>

definition add_success_stats :: "u64 \<Rightarrow> u64 \<Rightarrow> u64 \<Rightarrow> InferRequestStats \<Rightarrow> InferRequestStats" where
  "add_success_stats request_duration_ns run_duration_ns compute_duration_ns stats =
     stats\<lparr>success := \<lparr>count = count (success stats) + 1,
                        total_time_ns = total_time_ns (success stats) + request_duration_ns\<rparr>,
           compute := \<lparr>count = count (compute stats) + 1,
                        total_time_ns = total_time_ns (compute stats) + compute_duration_ns\<rparr>,
           queue := \<lparr>count = count (queue stats) + 1,
                      total_time_ns = total_time_ns (queue stats)
                                      + (run_duration_ns - compute_duration_ns)\<rparr>\<rparr>"

text \<open>
  \<open>UpdateSuccessInferStats\<close>.  An unknown model and a batch size of zero only log an
  error.  \<open>execution_cnt\<close> is a \<open>uint32_t\<close>.
\<close>

definition UpdateSuccessInferStats ::
  "string \<Rightarrow> int \<Rightarrow> u64 \<Rightarrow> u32 \<Rightarrow> u64 \<Rightarrow> u64 \<Rightarrow> u64 \<Rightarrow> 'c ServerStatus \<Rightarrow> 'c ServerStatus" where
  "UpdateSuccessInferStats model_name model_version bs execution_cnt
       request_duration_ns run_duration_ns compute_duration_ns st =
     (case model_status st model_name of
        None \<Rightarrow> st
      | Some ms \<Rightarrow>
          if bs = 0 then st
          else
            (let mvs = version_status ms;
                 version_status' =
                   (case map_of mvs model_version of
                      None \<Rightarrow>
                        empty_ModelVersionStatus
                          \<lparr>model_inference_count := bs,
                           model_execution_count := ucast execution_cnt,
                           infer_stats :=
                             [ucast bs \<mapsto>
                                new_success_stats request_duration_ns run_duration_ns
                                  compute_duration_ns empty_InferRequestStats]\<rparr>
                    | Some vs \<Rightarrow>
                        vs\<lparr>model_inference_count := model_inference_count vs + bs,
                           model_execution_count :=
                             model_execution_count vs + ucast execution_cnt,
                           infer_stats :=
                             (case infer_stats vs (ucast bs) of
                                None \<Rightarrow>
                                  (infer_stats vs)(ucast bs \<mapsto>
                                    new_success_stats request_duration_ns run_duration_ns
                                      compute_duration_ns empty_InferRequestStats)
                              | Some stats \<Rightarrow>
                                  (infer_stats vs)(ucast bs \<mapsto>
                                    add_success_stats request_duration_ns run_duration_ns
                                      compute_duration_ns stats))\<rparr>)
             in st\<lparr>model_status :=
                      (model_status st)(model_name \<mapsto>
                        ms\<lparr>version_status := AList.update model_version version_status' mvs\<rparr>)\<rparr>))"

text \<open>
  The four counters that the performance client reads for a model version and a batch
  size; an entry that does not exist counts as zero, as in \<open>start_counters\<close>.
\<close>

definition server_counters :: "'c ServerStatus \<Rightarrow> string \<Rightarrow> int \<Rightarrow> u64 \<Rightarrow> Counters" where
  "server_counters st model_name model_version bs =
     (case model_status st model_name of
        None \<Rightarrow> zero_counters
      | Some ms \<Rightarrow> start_counters ms model_version bs)"

section \<open>\<open>ConcurrencyManager::Measure\<close> and \<open>ConcurrencyManager::Step\<close>\<close>

text \<open>
  What one call of \<open>Measure\<close> observes: the results of the two status requests and of
  the two profile requests, the context statistics accumulated before and after the
  sleep, and the timestamps that \<open>Summarize\<close> drains.
\<close>

record 'c Window =
  w_start_status :: "Error + 'c ModelStatus"
  w_start_profile :: Error
  w_start_stat :: Stat
  w_end_stat :: Stat
  w_stop_profile :: Error
  w_end_status :: "Error + 'c ModelStatus"
  w_timestamps :: TimestampVector

definition Measure ::
  "(u64 \<Rightarrow> u64) \<Rightarrow> Manager \<Rightarrow> 'c Window \<Rightarrow> PerfStatus \<Rightarrow> Error \<times> PerfStatus" where
  "Measure sqrt_u64 m w status_summary =
     (case w_start_status w of
        Inl err \<Rightarrow> (err, status_summary)
      | Inr start_status \<Rightarrow>
          if m_profile m \<and> \<not> IsOk (w_start_profile w) then (w_start_profile w, status_summary)
          else if m_profile m \<and> \<not> IsOk (w_stop_profile w) then (w_stop_profile w, status_summary)
          else
            (case w_end_status w of
               Inl err \<Rightarrow> (err, status_summary)
             | Inr end_status \<Rightarrow>
                 (case Summarize sqrt_u64 m (w_timestamps w) start_status end_status
                         (w_start_stat w) (w_end_stat w) status_summary of
                    (err, summary') \<Rightarrow>
                      if \<not> IsOk err then (err, summary') else (Error SUCCESS [], summary'))))"

subsection \<open>The stability detector\<close>

text \<open>The local variables of the measurement loop of \<open>Step\<close>.\<close>

record StepState =
  infer_per_sec :: "i32 list"
  latencies :: "u64 list"
  stable :: bool
  avg_ips :: rat
  avg_latency :: u64

definition init_StepState :: StepState where
  "init_StepState =
     \<lparr>infer_per_sec = [], latencies = [], stable = True, avg_ips = 0, avg_latency = 0\<rparr>"

definition recent_k :: nat where
  "recent_k = 3"

text \<open>
  The \<open>for\<close> loop over the last \<open>recent_k\<close> measurements: \<open>False\<close> at the first
  measurement outside the band around the averages.  Throughput is compared as a
  \<open>double\<close> with \<open>avg_ips * (1 \<plusminus> stable_offset_)\<close>; the latency and its average,
  both \<open>uint64_t\<close>, are converted to \<open>double\<close> for the comparison.
\<close>

fun within_band :: "rat \<Rightarrow> rat \<Rightarrow> u64 \<Rightarrow> (i32 \<times> u64) list \<Rightarrow> bool" where
  "within_band stable_offset aips alat [] = True"
| "within_band stable_offset aips alat ((ips, lat) # rest) =
     (if of_int (sint ips) < f64 (aips * f64 (1 - stable_offset)) \<or>
         of_int (sint ips) > f64 (aips * f64 (1 + stable_offset))
      then False
      else if f64 (of_nat (unat lat)) < f64 (f64 (of_nat (unat alat)) * f64 (1 - stable_offset)) \<or>
              f64 (of_nat (unat lat)) > f64 (f64 (of_nat (unat alat)) * f64 (1 + stable_offset))
      then False
      else within_band stable_offset aips alat rest)"

text \<open>
  The part of the loop body after \<open>Measure\<close>: the two \<open>push_back\<close>, the running
  averages (the throughput one a \<open>double\<close>, the latency one a \<open>uint64_t\<close> with an
  integer division of every term), and the stability test.
\<close>

definition stability_update :: "rat \<Rightarrow> StepState \<Rightarrow> i32 \<Rightarrow> u64 \<Rightarrow> StepState" where
  "stability_update stable_offset st ips lat =
     (let ipss = infer_per_sec st @ [ips];
          lats = latencies st @ [lat];
          aips = f64 (avg_ips st + f64 (of_int (sint ips) / of_nat recent_k));
          alat = avg_latency st + lat div of_nat recent_k
      in if length ipss \<ge> recent_k
         then
           (let idx = length ipss - recent_k;
                aips' = (if length ipss > recent_k
                         then f64 (aips - f64 (of_int (sint (ipss ! (idx - 1))) / of_nat recent_k))
                         else aips);
                alat' = (if length ipss > recent_k
                         then alat - (lats ! (idx - 1)) div of_nat recent_k
                         else alat)
            in \<lparr>infer_per_sec = ipss, latencies = lats,
                stable = within_band stable_offset aips' alat' (zip (drop idx ipss) (drop idx lats)),
                avg_ips = aips', avg_latency = alat'\<rparr>)
         else \<lparr>infer_per_sec = ipss, latencies = lats, stable = stable st,
               avg_ips = aips, avg_latency = alat\<rparr>)"

text \<open>The detector fed with a sequence of measurements (throughput, average latency).\<close>

definition detector_run :: "rat \<Rightarrow> (i32 \<times> u64) list \<Rightarrow> StepState" where
  "detector_run stable_offset ms =
     foldl (\<lambda>st (ips, lat). stability_update stable_offset st ips lat) init_StepState ms"

subsection \<open>The measurement loop\<close>

text \<open>
  What one iteration of the \<open>do\<close> loop observes besides its \<open>Measure\<close> call: whether
  every worker's status is still OK, and the value of the \<open>early_exit\<close> flag, which is
  read once per iteration.
\<close>

record 'c Observation =
  o_threads_ok :: bool
  o_window :: "'c Window"
  o_early_exit :: bool

definition Step_finish :: "bool \<Rightarrow> Error" where
  "Step_finish early_exit =
     (if early_exit then Error INTERNAL ''Received exit signal.'' else Error SUCCESS [])"

text \<open>
  The loop takes one observation per iteration.  \<open>None\<close>: the observations ran out
  before the loop ended.
\<close>

fun Step_loop ::
  "(u64 \<Rightarrow> u64) \<Rightarrow> Manager \<Rightarrow> 'c Observation list \<Rightarrow> StepState \<Rightarrow> PerfStatus
     \<Rightarrow> (Error \<times> StepState \<times> PerfStatus) option" where
  "Step_loop sqrt_u64 m [] st status_summary = None"
| "Step_loop sqrt_u64 m (ob # obs) st status_summary =
     (if \<not> o_threads_ok ob
      then Some (Error INTERNAL
             (''Failed to maintain concurrency level requested.'' @
              '' Worker thread(s) failed to generate concurrent requests.''), st, status_summary)
      else
        (case Measure sqrt_u64 m (o_window ob) status_summary of
           (err, summary') \<Rightarrow>
             if \<not> IsOk err then Some (err, st, summary')
             else
               (let st' = stability_update (m_stable_offset m) st
                            (client_infer_per_sec summary') (client_avg_latency_ns summary')
                in if length (infer_per_sec st') \<ge> recent_k \<and> stable st'
                   then Some (Step_finish (o_early_exit ob), st', summary')
                   else if \<not> o_early_exit ob \<and>
                           length (infer_per_sec st') < unat (m_max_measurement_count m)
                   then Step_loop sqrt_u64 m obs st' summary'
                   else Some (Step_finish (o_early_exit ob), st', summary'))))"

subsection \<open>The Concurrency Controller\<close>

text \<open>
  A worker thread is the function it runs: \<open>Infer\<close> with its thread index, or
  \<open>AsyncInfer\<close>.  The controller's state is \<open>*pause_index_\<close> and \<open>threads_\<close>.
\<close>

datatype Worker = Infer nat | AsyncInfer

record Controller =
  pause_index :: u64
  threads :: "Worker list"

text \<open>The state that \<open>Create\<close> leaves.\<close>

definition Create :: Controller where
  "Create = \<lparr>pause_index = 0, threads = []\<rparr>"

text \<open>\<open>while (concurrent_request_count > threads_.size())\<close>: one new thread per round.\<close>

function spawn_sync :: "nat \<Rightarrow> Worker list \<Rightarrow> Worker list" where
  "spawn_sync concurrent_request_count ths =
     (if concurrent_request_count > length ths
      then spawn_sync concurrent_request_count (ths @ [Infer (length ths)])
      else ths)"
  by pat_completeness auto
termination
  by (relation "measure (\<lambda>(k, ths). k - length ths)") auto

declare spawn_sync.simps [simp del]

definition Step_adjust :: "Manager \<Rightarrow> u64 \<Rightarrow> Controller \<Rightarrow> Controller" where
  "Step_adjust m concurrent_request_count c =
     (let c' = c\<lparr>pause_index := concurrent_request_count\<rparr>
      in if \<not> m_async m
         then c'\<lparr>threads := spawn_sync (unat concurrent_request_count) (threads c')\<rparr>
         else if length (threads c') = 0
         then c'\<lparr>threads := threads c' @ [AsyncInfer]\<rparr>
         else c')"

text \<open>
  \<open>Step\<close>: the controller after the adjustment, and the outcome of the measurement
  loop.
\<close>

definition Step ::
  "(u64 \<Rightarrow> u64) \<Rightarrow> Manager \<Rightarrow> u64 \<Rightarrow> 'c Observation list \<Rightarrow> Controller \<Rightarrow> PerfStatus
     \<Rightarrow> Controller \<times> (Error \<times> StepState \<times> PerfStatus) option" where
  "Step sqrt_u64 m concurrent_request_count obs c status_summary =
     (Step_adjust m concurrent_request_count c,
      Step_loop sqrt_u64 m obs init_StepState
        (status_summary\<lparr>concurrency := ucast concurrent_request_count\<rparr>))"

text \<open>
  The test \<open>thread_index >= *pause_index\<close> after which \<open>Infer\<close> waits on the
  condition variable; \<open>AsyncInfer\<close> never waits on it.  The active workers are those
  that the test lets run.
\<close>

fun parks :: "u64 \<Rightarrow> Worker \<Rightarrow> bool" where
  "parks pidx (Infer thread_index) = (thread_index \<ge> unat pidx)"
| "parks pidx AsyncInfer = False"

definition active_workers :: "Controller \<Rightarrow> Worker list" where
  "active_workers c = filter (\<lambda>w. \<not> parks (pause_index c) w) (threads c)"

text \<open>The controller after \<open>Create\<close> and one \<open>Step\<close> for each level of a list.\<close>

definition controller_after :: "Manager \<Rightarrow> u64 list \<Rightarrow> Controller" where
  "controller_after m ks = foldl (\<lambda>c k. Step_adjust m k c) Create ks"

subsection \<open>The asynchronous worker's refill loop\<close>

text \<open>
  \<open>requests_start_time\<close> is a \<open>std::map\<close> from request id to start time; \<open>emplace\<close>
  does not replace an existing key.
\<close>

definition emplace :: "u64 \<Rightarrow> timespec \<Rightarrow> (u64 \<times> timespec) list \<Rightarrow> (u64 \<times> timespec) list" where
  "emplace rid t rs = (if rid \<in> fst ` set rs then rs else rs @ [(rid, t)])"

text \<open>
  \<open>while (requests_start_time.size() < *pause_index)\<close>: every round takes the outcome
  of one \<open>AsyncRun\<close> call, an error or the new request's id with its start time.
  \<open>None\<close>: the outcomes ran out before the loop ended.
\<close>

fun refill ::
  "u64 \<Rightarrow> (Error + u64 \<times> timespec) list \<Rightarrow> (u64 \<times> timespec) list
     \<Rightarrow> (Error + (u64 \<times> timespec) list) option" where
  "refill pidx [] rs = (if length rs < unat pidx then None else Some (Inr rs))"
| "refill pidx (r # env) rs =
     (if length rs < unat pidx
      then (case r of
              Inl err \<Rightarrow> Some (Inl err)
            | Inr (rid, start_time) \<Rightarrow> refill pidx env (emplace rid start_time rs))
      else Some (Inr rs))"

subsection \<open>The asynchronous worker's completion loop\<close>

fun Code :: "Error \<Rightarrow> RequestStatusCode" where
  "Code (Error c m) = c"

text \<open>
  What one call of \<open>GetReadyAsyncRequest\<close>, with the \<open>GetAsyncRunResults\<close> and the
  clock reading that follow it, gives the worker: the error of the first call, the id of
  the request it designates, the error of the second call and the end time.

  Modelled from the spec: the client library is not among the sources; the spec gives
  its interface as \<open>get_ready_async_request(blocking) \<rightarrow> Request | (Error::Unavailable
  if non-blocking and none ready)\<close>.  The outcomes are listed in the order of time; one
  with code \<open>UNAVAILABLE\<close> is a moment at which no request has completed, where a
  non-blocking call returns and a blocking call waits for the next outcome.
\<close>

record AsyncOutcome =
  a_ready :: Error
  a_id :: u64
  a_results :: Error
  a_end_time :: timespec

text \<open>
  How the worker leaves the loop other than by \<open>break\<close>: it returns with an error, or
  it dereferences the end iterator of \<open>requests_start_time\<close> (the id is not in the map),
  which is undefined.
\<close>

datatype worker_stop = Returned Error | UndefinedLookup

text \<open>
  \<open>while (true)\<close> of \<open>AsyncInfer\<close>: the requests in flight, the timestamps appended so
  far, and on \<open>break\<close> the outcomes that are left.  \<open>None\<close>: the outcomes ran out
  before the loop ended.
\<close>

fun drain ::
  "u64 \<Rightarrow> AsyncOutcome list \<Rightarrow> (u64 \<times> timespec) list \<Rightarrow> TimestampVector
     \<Rightarrow> (worker_stop + (u64 \<times> timespec) list \<times> TimestampVector \<times> AsyncOutcome list) option" where
  "drain pidx [] rs ts = None"
| "drain pidx (a # env) rs ts =
     (if Code (a_ready a) = UNAVAILABLE
      then (if length rs \<ge> unat pidx then drain pidx env rs ts else Some (Inr (rs, ts, env)))
      else if \<not> IsOk (a_ready a) then Some (Inl (Returned (a_ready a)))
      else if \<not> IsOk (a_results a) then Some (Inl (Returned (a_results a)))
      else (case map_of rs (a_id a) of
              None \<Rightarrow> Some (Inl UndefinedLookup)
            | Some start_time \<Rightarrow>
                drain pidx env (filter (\<lambda>r. fst r \<noteq> a_id a) rs)
                  (ts @ [(start_time, a_end_time a)])))"

section \<open>Quantities of the specification\<close>

text \<open>The latencies of the timestamps that the second loop of \<open>Summarize\<close> counts.\<close>

definition window_latencies :: "Manager \<Rightarrow> TimestampVector \<Rightarrow> u64 list" where
  "window_latencies m ts =
     map (\<lambda>t. timespec_ns (snd t) - timespec_ns (fst t))
       (filter (in_window (client_start_ns m ts) (client_end_ns m ts)) ts)"

text \<open>
  The variance as the specification words it, for latencies in nanoseconds:
  \<open>max(0, \<Sum>(latency_us\<^sup>2)/n - avg_latency_us\<^sup>2)\<close>, in exact arithmetic.
\<close>

definition spec_variance_us :: "nat list \<Rightarrow> rat" where
  "spec_variance_us lats =
     (let n = of_nat (length lats);
          avg_latency_us = (\<Sum>l\<leftarrow>lats. of_nat l / 1000) / n
      in max 0 ((\<Sum>l\<leftarrow>lats. (of_nat l / 1000) ^ 2) / n - avg_latency_us ^ 2))"

text \<open>
  \<open>infer_per_sec \<times> window_seconds / batch_size\<close>, the quantity that the specification
  compares with the number of timestamps in the window.
\<close>

definition spec_window_seconds :: "PerfStatus \<Rightarrow> rat" where
  "spec_window_seconds s = of_nat (unat (client_duration_ns s)) / 1000000000"

definition spec_throughput_count :: "PerfStatus \<Rightarrow> rat" where
  "spec_throughput_count s =
     of_int (sint (client_infer_per_sec s)) * spec_window_seconds s
       / of_nat (unat (batch_size s))"

text \<open>
  The floor of the square root of a 64-bit value, found bit by bit from bit 31 down: an
  instance for the parameter \<open>sqrt_u64\<close>.
\<close>

fun sqrt_bits :: "nat \<Rightarrow> nat \<Rightarrow> nat \<Rightarrow> nat" where
  "sqrt_bits i r n =
     (if i = 0 then r
      else sqrt_bits (i - 1)
             (if (r + 2 ^ (i - 1)) * (r + 2 ^ (i - 1)) \<le> n then r + 2 ^ (i - 1) else r) n)"

declare sqrt_bits.simps [simp del]

definition floor_sqrt_u64 :: "u64 \<Rightarrow> u64" where
  "floor_sqrt_u64 v = of_nat (sqrt_bits 32 0 (unat v))"

text \<open>
  Two measurements (throughput, average latency) of which the second is the first scaled
  by \<open>2^j\<close>, within the range of the two types.
\<close>

definition scaled_by :: "nat \<Rightarrow> i32 \<times> u64 \<Rightarrow> i32 \<times> u64 \<Rightarrow> bool" where
  "scaled_by j m m' \<longleftrightarrow>
     sint (fst m') = 2 ^ j * sint (fst m) \<and> unat (snd m') = 2 ^ j * unat (snd m)"

text \<open>The sum of the integer thirds of the last three latencies of a list.\<close>

definition thirds :: "u64 list \<Rightarrow> u64" where
  "thirds ls = sum_list (map (\<lambda>l. l div 3) (drop (length ls - 3) ls))"

section \<open>Concrete inputs\<close>

text \<open>The default \<open>stable_offset\<close> of \<open>main\<close>: the \<open>double\<close> nearest to \<open>0.1\<close>.\<close>

definition double_0_1 :: rat where
  "double_0_1 = 3602879701896397 / 36028797018963968"

text \<open>A manager with batch size 1, a window of 1 ms and the latest model version.\<close>

definition example_manager :: Manager where
  "example_manager =
     \<lparr>m_profile = False, m_batch_size = 1, m_stable_offset = double_0_1, m_measurement_window_ms = 1,
      m_max_measurement_count = 10, m_async = False, m_model_version = - 1\<rparr>"

text \<open>Three requests spread over 3 ms, one second after the clock's origin.\<close>

definition example_timestamps :: TimestampVector where
  "example_timestamps =
     [(\<lparr>tv_sec = 1, tv_nsec = 0\<rparr>, \<lparr>tv_sec = 1, tv_nsec = 500000\<rparr>),
      (\<lparr>tv_sec = 1, tv_nsec = 1000000\<rparr>, \<lparr>tv_sec = 1, tv_nsec = 1600000\<rparr>),
      (\<lparr>tv_sec = 1, tv_nsec = 2000000\<rparr>, \<lparr>tv_sec = 1, tv_nsec = 3000000\<rparr>)]"

text \<open>
  A window of 10 s with two requests, of 5 s and of 1 s latency.
\<close>

definition slow_manager :: Manager where
  "slow_manager = example_manager\<lparr>m_measurement_window_ms := 10000\<rparr>"

definition slow_timestamps :: TimestampVector where
  "slow_timestamps =
     [(\<lparr>tv_sec = 1, tv_nsec = 0\<rparr>, \<lparr>tv_sec = 6, tv_nsec = 0\<rparr>),
      (\<lparr>tv_sec = 2, tv_nsec = 0\<rparr>, \<lparr>tv_sec = 3, tv_nsec = 0\<rparr>)]"

text \<open>
  Context statistics that did not move during the sleep, and a \<open>PerfStatus\<close> that
  still holds the averages of an earlier window.
\<close>

definition idle_stat :: Stat where
  "idle_stat =
     \<lparr>completed_request_count = 40, cumulative_total_request_time_ns = 2000000,
      cumulative_send_time_ns = 300000, cumulative_receive_time_ns = 100000\<rparr>"

definition stale_summary :: PerfStatus where
  "stale_summary =
     \<lparr>concurrency = 1, batch_size = 1, server_request_count = 0, server_cumm_time_ns = 0,
      server_queue_time_ns = 0, server_compute_time_ns = 0, client_request_count = 0,
      client_duration_ns = 0, client_min_latency_ns = 0, client_max_latency_ns = 0,
      client_avg_latency_ns = 0, std_us = 0, client_avg_request_time_ns = 50000,
      client_avg_send_time_ns = 7500, client_avg_receive_time_ns = 2500,
      client_infer_per_sec = 0\<rparr>"

text \<open>
  A server that tracks two models; version 1 of each has served five requests of batch
  size 1.  The configuration is a number here.
\<close>

definition example_stats :: InferRequestStats where
  "example_stats =
     \<lparr>success = \<lparr>count = 5, total_time_ns = 5000\<rparr>, failed = empty_StatDuration,
      compute = \<lparr>count = 5, total_time_ns = 3000\<rparr>,
      queue = \<lparr>count = 5, total_time_ns = 1000\<rparr>\<rparr>"

definition example_version :: ModelVersionStatus where
  "example_version =
     \<lparr>ready_state = MODEL_READY, model_execution_count = 5, model_inference_count = 5,
      infer_stats = [1 \<mapsto> example_stats]\<rparr>"

definition example_model :: "nat ModelStatus" where
  "example_model = \<lparr>config = Some 7, version_status = [(1, example_version)]\<rparr>"

definition example_server :: "nat ServerStatus" where
  "example_server =
     \<lparr>server_version = ''0.9'',
      model_status = [''resnet'' \<mapsto> example_model, ''bert'' \<mapsto> example_model]\<rparr>"

text \<open>
  The status of the model after it was added again and has served three requests, and
  the status of a model with versions 1 and 3.
\<close>

definition readded_stats :: InferRequestStats where
  "readded_stats =
     \<lparr>success = \<lparr>count = 3, total_time_ns = 3000\<rparr>, failed = empty_StatDuration,
      compute = \<lparr>count = 3, total_time_ns = 1800\<rparr>,
      queue = \<lparr>count = 3, total_time_ns = 600\<rparr>\<rparr>"

definition readded_model :: "nat ModelStatus" where
  "readded_model =
     \<lparr>config = Some 7,
      version_status = [(1, example_version\<lparr>infer_stats := [1 \<mapsto> readded_stats]\<rparr>)]\<rparr>"

definition two_version_model :: "nat ModelStatus" where
  "two_version_model =
     \<lparr>config = Some 7, version_status = [(1, example_version), (3, example_version)]\<rparr>"

definition cleared_model :: "nat ModelStatus" where
  "cleared_model = \<lparr>config = Some 7, version_status = []\<rparr>"




text \<open>The same manager in asynchronous mode, and a start time for its requests.\<close>

definition async_manager :: Manager where
  "async_manager = example_manager\<lparr>m_async := True\<rparr>"

definition example_time :: timespec where
  "example_time = \<lparr>tv_sec = 1, tv_nsec = 0\<rparr>"

text \<open>A \<open>Step\<close> whose loop gets no observation: only the controller's side counts.\<close>

definition no_observations :: "nat Observation list" where
  "no_observations = []"

text \<open>
  Three measurements (throughput, average latency in ns) close to each other, the same
  doubled, and three equal measurements of one inference per second and 1 ns with their
  triple.
\<close>

definition steady_samples :: "(i32 \<times> u64) list" where
  "steady_samples = [(100, 3000000), (102, 3000300), (98, 2999700)]"

definition doubled_samples :: "(i32 \<times> u64) list" where
  "doubled_samples = [(200, 6000000), (204, 6000600), (196, 5999400)]"

definition unit_samples :: "(i32 \<times> u64) list" where
  "unit_samples = [(1, 1), (1, 1), (1, 1)]"

definition tripled_samples :: "(i32 \<times> u64) list" where
  "tripled_samples = [(3, 3), (3, 3), (3, 3)]"

text \<open>
  The summary that \<open>Summarize\<close> makes of the three requests above, of which one
  ends inside the window of 1 ms.
\<close>

definition example_result :: PerfStatus where
  "example_result =
     stale_summary\<lparr>batch_size := 1, client_request_count := 1,
       client_duration_ns := 1000000, client_infer_per_sec := 999,
       client_min_latency_ns := 600000, client_max_latency_ns := 600000,
       client_avg_latency_ns := 600000, std_us := 0\<rparr>"

text \<open>
  A window of 5 s with seven requests of 0.7 s each, one after the other, and the
  summary that \<open>Summarize\<close> makes of them.
\<close>

definition five_second_manager :: Manager where
  "five_second_manager = example_manager\<lparr>m_measurement_window_ms := 5000\<rparr>"

definition seven_timestamps :: TimestampVector where
  "seven_timestamps =
     [(\<lparr>tv_sec = 1, tv_nsec = 0\<rparr>, \<lparr>tv_sec = 1, tv_nsec = 700000000\<rparr>),
      (\<lparr>tv_sec = 1, tv_nsec = 700000000\<rparr>, \<lparr>tv_sec = 2, tv_nsec = 400000000\<rparr>),
      (\<lparr>tv_sec = 2, tv_nsec = 400000000\<rparr>, \<lparr>tv_sec = 3, tv_nsec = 100000000\<rparr>),
      (\<lparr>tv_sec = 3, tv_nsec = 100000000\<rparr>, \<lparr>tv_sec = 3, tv_nsec = 800000000\<rparr>),
      (\<lparr>tv_sec = 3, tv_nsec = 800000000\<rparr>, \<lparr>tv_sec = 4, tv_nsec = 500000000\<rparr>),
      (\<lparr>tv_sec = 4, tv_nsec = 500000000\<rparr>, \<lparr>tv_sec = 5, tv_nsec = 200000000\<rparr>),
      (\<lparr>tv_sec = 5, tv_nsec = 200000000\<rparr>, \<lparr>tv_sec = 5, tv_nsec = 900000000\<rparr>)]"

definition seven_result :: PerfStatus where
  "seven_result =
     stale_summary\<lparr>batch_size := 1, client_request_count := 7,
       client_duration_ns := 5000000000, client_infer_per_sec := 1,
       client_min_latency_ns := 700000000, client_max_latency_ns := 700000000,
       client_avg_latency_ns := 700000000, std_us := 0\<rparr>"

text \<open>
  A request with a latency of 0 ns followed by one of 5 ns, and the summary that
  \<open>Summarize\<close> makes of them.
\<close>

definition zero_latency_timestamps :: TimestampVector where
  "zero_latency_timestamps =
     [(\<lparr>tv_sec = 1, tv_nsec = 0\<rparr>, \<lparr>tv_sec = 1, tv_nsec = 0\<rparr>),
      (\<lparr>tv_sec = 1, tv_nsec = 10\<rparr>, \<lparr>tv_sec = 1, tv_nsec = 15\<rparr>)]"

definition zero_latency_result :: PerfStatus where
  "zero_latency_result =
     stale_summary\<lparr>batch_size := 1, client_request_count := 2,
       client_duration_ns := 1000000, client_infer_per_sec := 1999,
       client_min_latency_ns := 5, client_max_latency_ns := 5,
       client_avg_latency_ns := 2, std_us := 0\<rparr>"


text \<open>
  The status of the model while its version 3 is being loaded: the status request
  lists the new version, which has served nothing yet.
\<close>

definition loading_model :: "nat ModelStatus" where
  "loading_model =
     \<lparr>config = Some 7,
      version_status =
        [(1, example_version), (3, empty_ModelVersionStatus\<lparr>ready_state := MODEL_LOADING\<rparr>)]\<rparr>"

text \<open>
  Four requests in flight, started at 1 s, and the outcomes that the worker meets next:
  requests 10, 11 and 12 complete, then nothing is ready.
\<close>

definition four_in_flight :: "(u64 \<times> timespec) list" where
  "four_in_flight =
     [(10, example_time), (11, example_time), (12, example_time), (13, example_time)]"

definition completed :: "u64 \<Rightarrow> u64 \<Rightarrow> AsyncOutcome" where
  "completed rid sec =
     \<lparr>a_ready = Error SUCCESS [], a_id = rid, a_results = Error SUCCESS [],
      a_end_time = \<lparr>tv_sec = sec, tv_nsec = 0\<rparr>\<rparr>"

definition none_ready :: AsyncOutcome where
  "none_ready =
     \<lparr>a_ready = Error UNAVAILABLE ''No completed asynchronous request'', a_id = 0,
      a_results = Error SUCCESS [], a_end_time = \<lparr>tv_sec = 0, tv_nsec = 0\<rparr>\<rparr>"

definition example_outcomes :: "AsyncOutcome list" where
  "example_outcomes = [completed 10 2, completed 11 2, completed 12 3, none_ready]"

section \<open>Rounding to a binary floating-point format\<close>

lemma bitlen_nat_bounds:
  "0 < n \<Longrightarrow> 2 ^ (bitlen_nat n - 1) \<le> n \<and> n < 2 ^ bitlen_nat n"
proof (induction n rule: bitlen_nat.induct)
  case (1 n)
  show ?case
  proof (cases "n div 2 = 0")
    case True
    then have "n = 1" using "1.prems" by (cases n) auto
    then show ?thesis by (simp add: bitlen_nat.simps)
  next
    case False
    then have pos: "0 < n div 2" by simp
    have IH: "2 ^ (bitlen_nat (n div 2) - 1) \<le> n div 2 \<and> n div 2 < 2 ^ bitlen_nat (n div 2)"
      using "1.IH" "1.prems" pos by simp
    have b: "bitlen_nat n = Suc (bitlen_nat (n div 2))"
      using "1.prems" by (subst bitlen_nat.simps) simp
    have bp: "0 < bitlen_nat (n div 2)"
      using pos by (subst bitlen_nat.simps) simp
    have "2 * 2 ^ (bitlen_nat (n div 2) - 1) \<le> n" using IH by linarith
    moreover have "2 * 2 ^ (bitlen_nat (n div 2) - 1) = (2 :: nat) ^ bitlen_nat (n div 2)"
      using bp by (cases "bitlen_nat (n div 2)") simp_all
    moreover have "n < 2 * 2 ^ bitlen_nat (n div 2)" using IH by linarith
    ultimately show ?thesis by (simp add: b)
  qed
qed

lemma pow2_powi: "pow2 e = 2 powi e"
  by (simp add: pow2_def power_int_def field_simps)

lemma pow2_pos: "0 < pow2 e"
  by (simp add: pow2_powi)

lemma pow2_nonzero: "pow2 e \<noteq> 0"
  by (simp add: pow2_powi)

lemma abs_pow2: "\<bar>pow2 e\<bar> = pow2 e"
  by (rule abs_of_pos) (rule pow2_pos)

lemma pow2_add: "pow2 (a + b) = pow2 a * pow2 b"
  by (simp add: pow2_powi power_int_add)

lemma pow2_nat: "pow2 (int n) = 2 ^ n"
  by (simp add: pow2_def)

lemma pow2_neg_nat: "pow2 (- int n) = 1 / 2 ^ n"
  by (cases "n = 0") (simp_all add: pow2_def)

lemma pow2_mono: "a \<le> b \<Longrightarrow> pow2 a \<le> pow2 b"
  by (simp add: pow2_powi power_int_increasing)

lemma of_nat_pow2_le: "(2 :: nat) ^ k \<le> n \<Longrightarrow> (2 :: rat) ^ k \<le> of_nat n"
  by (metis of_nat_le_iff of_nat_numeral of_nat_power)

lemma of_nat_less_pow2: "n < (2 :: nat) ^ k \<Longrightarrow> (of_nat n :: rat) + 1 \<le> 2 ^ k"
proof -
  assume "n < 2 ^ k"
  then have "Suc n \<le> 2 ^ k" by simp
  then have "(of_nat (Suc n) :: rat) \<le> of_nat (2 ^ k)" by (simp only: of_nat_le_iff)
  then show ?thesis by simp
qed

lemma bitlen_nat_pos: "0 < n \<Longrightarrow> 0 < bitlen_nat n"
  by (subst bitlen_nat.simps) simp

lemma binexp_bounds:
  assumes "0 < x"
  shows "pow2 (binexp x) \<le> x \<and> x < pow2 (binexp x + 1)"
proof (cases "1 \<le> x")
  case True
  define n where "n = nat \<lfloor>x\<rfloor>"
  define L where "L = bitlen_nat n"
  have n: "0 < n" using True by (simp add: n_def)
  have fl: "of_nat n \<le> x" "x < of_nat n + 1" using True unfolding n_def by linarith+
  have b: "2 ^ (L - 1) \<le> n" "n < 2 ^ L"
    using bitlen_nat_bounds [OF n] by (simp_all add: L_def)
  have L: "0 < L" unfolding L_def by (rule bitlen_nat_pos [OF n])
  have e: "binexp x = int (L - 1)"
    using True L by (simp add: binexp_def n_def [symmetric] L_def [symmetric])
  have "(2 :: rat) ^ (L - 1) \<le> of_nat n" by (rule of_nat_pow2_le [OF b(1)])
  then have "(2 :: rat) ^ (L - 1) \<le> x" using fl(1) by (rule order_trans)
  then have lo: "pow2 (binexp x) \<le> x" unfolding e pow2_nat .
  have "of_nat n + 1 \<le> (2 :: rat) ^ L" by (rule of_nat_less_pow2 [OF b(2)])
  then have "x < 2 ^ L" using fl(2) by linarith
  moreover have "binexp x + 1 = int L" using L by (simp add: e)
  ultimately have "x < pow2 (binexp x + 1)" by (simp add: pow2_nat)
  then show ?thesis using lo by simp
next
  case False
  define y where "y = 1 / x"
  define n where "n = nat (\<lceil>y\<rceil> - 1)"
  define k where "k = bitlen_nat n"
  have y: "1 < y" using False assms by (simp add: y_def)
  have c: "2 \<le> \<lceil>y\<rceil>" using y by linarith
  have n: "0 < n" using c by (simp add: n_def)
  have b: "2 ^ (k - 1) \<le> n" "n < 2 ^ k"
    using bitlen_nat_bounds [OF n] by (simp_all add: k_def)
  have k: "0 < k" unfolding k_def by (rule bitlen_nat_pos [OF n])
  have e: "binexp x = - int k"
    using False by (simp add: binexp_def y_def [symmetric] n_def [symmetric] k_def [symmetric])
  have ny: "of_nat n < y" "y \<le> of_nat n + 1" using c unfolding n_def by linarith+
  have "of_nat n + 1 \<le> (2 :: rat) ^ k" by (rule of_nat_less_pow2 [OF b(2)])
  then have "y \<le> 2 ^ k" using ny by linarith
  then have "1 \<le> 2 ^ k * x" using assms by (simp add: y_def field_simps)
  then have "1 / 2 ^ k \<le> x" by (simp add: field_simps)
  then have lo: "pow2 (binexp x) \<le> x" unfolding e pow2_neg_nat .
  have "(2 :: rat) ^ (k - 1) \<le> of_nat n" by (rule of_nat_pow2_le [OF b(1)])
  then have "2 ^ (k - 1) < y" using ny by linarith
  then have "2 ^ (k - 1) * x < 1" using assms by (simp add: y_def field_simps)
  then have hi0: "x < 1 / 2 ^ (k - 1)" by (simp add: field_simps)
  have "binexp x + 1 = - int (k - 1)" using k by (simp add: e)
  then have "pow2 (binexp x + 1) = 1 / 2 ^ (k - 1)" by (simp only: pow2_neg_nat)
  then have "x < pow2 (binexp x + 1)" using hi0 by simp
  then show ?thesis using lo by simp
qed

lemma binexp_unique:
  assumes "0 < x" "pow2 e \<le> x" "x < pow2 (e + 1)"
  shows "binexp x = e"
proof (rule ccontr)
  assume ne: "binexp x \<noteq> e"
  note b = binexp_bounds [OF assms(1)]
  show False
  proof (cases "binexp x < e")
    case True
    then have "pow2 (binexp x + 1) \<le> pow2 e" by (intro pow2_mono) simp
    then show False using b assms by linarith
  next
    case False
    then have "e + 1 \<le> binexp x" using ne by simp
    then have "pow2 (e + 1) \<le> pow2 (binexp x)" by (rule pow2_mono)
    then show False using b assms by linarith
  qed
qed

lemma binexp_scale:
  assumes "0 < x"
  shows "binexp (pow2 j * x) = binexp x + j"
proof (rule binexp_unique)
  note b = binexp_bounds [OF assms]
  show "0 < pow2 j * x" using assms pow2_pos [of j] by simp
  show "pow2 (binexp x + j) \<le> pow2 j * x"
    using b pow2_pos [of j] by (simp add: pow2_add mult.commute)
  have "pow2 j * x < pow2 j * pow2 (binexp x + 1)" using b pow2_pos [of j] by simp
  then show "pow2 j * x < pow2 (binexp x + j + 1)"
    by (simp add: pow2_add mult_ac)
qed

lemma round_half_even_error: "\<bar>of_int (round_half_even y) - y\<bar> \<le> 1 / 2"
proof -
  have "of_int \<lfloor>y\<rfloor> \<le> y" "y < of_int \<lfloor>y\<rfloor> + 1" by linarith+
  then show ?thesis by (auto simp: round_half_even_def Let_def)
qed

lemma rn_error:
  assumes "0 < p"
  shows "\<bar>rn p x - x\<bar> \<le> \<bar>x\<bar> / 2 ^ p"
proof (cases "x = 0")
  case True
  then show ?thesis by (simp add: rn_def)
next
  case False
  let ?e = "binexp \<bar>x\<bar> - int p + 1"
  let ?y = "x / pow2 ?e"
  have ax: "0 < \<bar>x\<bar>" using False by simp
  note b = binexp_bounds [OF ax]
  have r: "rn p x = of_int (round_half_even ?y) * pow2 ?e"
    using False by (simp add: rn_def Let_def)
  have "rn p x - x = (of_int (round_half_even ?y) - ?y) * pow2 ?e"
    using pow2_nonzero [of ?e] by (simp add: r field_simps)
  then have "\<bar>rn p x - x\<bar> = \<bar>of_int (round_half_even ?y) - ?y\<bar> * pow2 ?e"
    by (simp add: abs_mult abs_pow2)
  also have "\<dots> \<le> (1 / 2) * pow2 ?e"
    using pow2_pos [of ?e] by (intro mult_right_mono round_half_even_error) simp
  also have "(1 / 2) * pow2 ?e = pow2 (binexp \<bar>x\<bar>) / 2 ^ p"
  proof -
    have "pow2 ?e = pow2 (binexp \<bar>x\<bar>) * pow2 (- int p) * pow2 1"
      by (simp add: pow2_add [symmetric])
    also have "pow2 (- int p) = 1 / 2 ^ p" by (rule pow2_neg_nat)
    also have "pow2 1 = 2" by (simp add: pow2_def)
    finally show ?thesis by simp
  qed
  also have "\<dots> \<le> \<bar>x\<bar> / 2 ^ p"
    using b by (simp add: divide_right_mono)
  finally show ?thesis .
qed

lemma rn_scale:
  "rn p (pow2 j * x) = pow2 j * rn p x"
proof (cases "x = 0")
  case True
  then show ?thesis by (simp add: rn_def)
next
  case False
  define e where "e = binexp \<bar>x\<bar> - int p + 1"
  have ax: "0 < \<bar>x\<bar>" using False by simp
  have a: "\<bar>pow2 j * x\<bar> = pow2 j * \<bar>x\<bar>" by (simp add: abs_mult abs_pow2)
  have "binexp \<bar>pow2 j * x\<bar> = binexp \<bar>x\<bar> + j"
    unfolding a by (rule binexp_scale [OF ax])
  then have e': "binexp \<bar>pow2 j * x\<bar> - int p + 1 = j + e" by (simp add: e_def)
  have nz: "pow2 j * x \<noteq> 0" using False pow2_nonzero [of j] by simp
  have q: "pow2 j * x / pow2 (j + e) = x / pow2 e"
    using pow2_nonzero [of j] by (simp add: pow2_add)
  have "rn p (pow2 j * x) = of_int (round_half_even (x / pow2 e)) * pow2 (j + e)"
    using nz by (simp add: rn_def Let_def e' q)
  also have "\<dots> = pow2 j * (of_int (round_half_even (x / pow2 e)) * pow2 e)"
    by (simp add: pow2_add)
  also have "of_int (round_half_even (x / pow2 e)) * pow2 e = rn p x"
    using False by (simp add: rn_def Let_def e_def)
  finally show ?thesis .
qed

section \<open>The measurement window\<close>

subsection \<open>The first loop computes the extreme times\<close>

lemma last_step_max:
  "(if l < e \<or> l = 0 then e else l) = max l (e::u64)"
  by (auto simp: max_def not_less)

lemma ffl_snd_mem: "snd (find_first_last ts f l) \<in> insert l ((\<lambda>t. timespec_ns (snd t)) ` set ts)"
  by (induction ts arbitrary: f l) (auto simp: Let_def)

lemma ffl_snd_ge: "l \<le> snd (find_first_last ts f l)"
proof (induction ts arbitrary: f l)
  case Nil then show ?case by simp
next
  case (Cons t ts)
  have "l \<le> max l (timespec_ns (snd t))" by simp
  also have "\<dots> \<le> snd (find_first_last ts (if timespec_ns (fst t) < f \<or> f = 0 then timespec_ns (fst t) else f) (max l (timespec_ns (snd t))))"
    by (rule Cons.IH)
  finally show ?case by (simp add: Let_def last_step_max)
qed

lemma ffl_snd_ub: "t \<in> set ts \<Longrightarrow> timespec_ns (snd t) \<le> snd (find_first_last ts f l)"
proof (induction ts arbitrary: f l)
  case Nil then show ?case by simp
next
  case (Cons a ts)
  show ?case
  proof (cases "t = a")
    case True
    have "timespec_ns (snd a) \<le> max l (timespec_ns (snd a))" by simp
    also have "\<dots> \<le> snd (find_first_last ts (if timespec_ns (fst a) < f \<or> f = 0 then timespec_ns (fst a) else f) (max l (timespec_ns (snd a))))"
      by (rule ffl_snd_ge)
    finally show ?thesis using True by (simp add: Let_def last_step_max)
  next
    case False
    then have "t \<in> set ts" using Cons.prems by simp
    then show ?thesis by (simp add: Let_def Cons.IH)
  qed
qed

lemma last_request_end_Max:
  assumes "ts \<noteq> []"
  shows "last_request_end_ns ts = Max ((\<lambda>t. timespec_ns (snd t)) ` set ts)"
proof -
  let ?E = "(\<lambda>t. timespec_ns (snd t)) ` set ts"
  have mem: "last_request_end_ns ts \<in> insert 0 ?E"
    unfolding last_request_end_ns_def by (rule ffl_snd_mem)
  have ub: "\<And>x. x \<in> ?E \<Longrightarrow> x \<le> last_request_end_ns ts"
    unfolding last_request_end_ns_def using ffl_snd_ub by blast
  obtain t where t: "t \<in> set ts" using assms by (cases ts) auto
  have "last_request_end_ns ts \<in> ?E"
  proof (cases "last_request_end_ns ts = 0")
    case True
    have "timespec_ns (snd t) \<le> 0" using ub[of "timespec_ns (snd t)"] t True by auto
    then have "timespec_ns (snd t) = 0" by simp
    then show ?thesis using True t by force
  next
    case False
    then show ?thesis using mem by auto
  qed
  then show ?thesis using ub by (intro Max_eqI [symmetric]) auto
qed

lemma ffl_fst_mem: "fst (find_first_last ts f l) \<in> insert f ((\<lambda>t. timespec_ns (fst t)) ` set ts)"
  by (induction ts arbitrary: f l) (auto simp: Let_def)

lemma ffl_fst_le:
  "f \<noteq> 0 \<Longrightarrow> \<forall>t\<in>set ts. timespec_ns (fst t) \<noteq> 0 \<Longrightarrow> fst (find_first_last ts f l) \<le> f"
proof (induction ts arbitrary: f l)
  case Nil then show ?case by simp
next
  case (Cons a ts)
  let ?s = "timespec_ns (fst a)"
  let ?f' = "if ?s < f \<or> f = 0 then ?s else f"
  have nz: "?f' \<noteq> 0" using Cons.prems by auto
  have "fst (find_first_last ts ?f' (if l < timespec_ns (snd a) \<or> l = 0 then timespec_ns (snd a) else l)) \<le> ?f'"
    using Cons.prems by (intro Cons.IH nz) auto
  also have "?f' \<le> f" using Cons.prems by auto
  finally show ?case by (simp add: Let_def)
qed

lemma ffl_fst_lb:
  "\<forall>t\<in>set ts. timespec_ns (fst t) \<noteq> 0 \<Longrightarrow> t \<in> set ts \<Longrightarrow>
     fst (find_first_last ts f l) \<le> timespec_ns (fst t)"
proof (induction ts arbitrary: f l)
  case Nil then show ?case by simp
next
  case (Cons a ts)
  let ?s = "timespec_ns (fst a)"
  let ?f' = "if ?s < f \<or> f = 0 then ?s else f"
  let ?l' = "if l < timespec_ns (snd a) \<or> l = 0 then timespec_ns (snd a) else l"
  have nz: "?f' \<noteq> 0" and rest: "\<forall>t\<in>set ts. timespec_ns (fst t) \<noteq> 0"
    using Cons.prems by auto
  show ?case
  proof (cases "t = a")
    case True
    have "fst (find_first_last ts ?f' ?l') \<le> ?f'" by (rule ffl_fst_le [OF nz rest])
    also have "?f' \<le> ?s" by auto
    finally show ?thesis using True by (simp add: Let_def)
  next
    case False
    then have "t \<in> set ts" using Cons.prems by simp
    then have "fst (find_first_last ts ?f' ?l') \<le> timespec_ns (fst t)"
      by (rule Cons.IH [OF rest])
    then show ?thesis by (simp add: Let_def)
  qed
qed

lemma first_request_start_Min_nonzero:
  assumes "ts \<noteq> []" and nz: "\<forall>t\<in>set ts. timespec_ns (fst t) \<noteq> 0"
  shows "first_request_start_ns ts = Min ((\<lambda>t. timespec_ns (fst t)) ` set ts)"
proof -
  let ?S = "(\<lambda>t. timespec_ns (fst t)) ` set ts"
  obtain a rest where ts: "ts = a # rest" using assms by (cases ts) auto
  have "first_request_start_ns ts =
      fst (find_first_last rest (timespec_ns (fst a)) (timespec_ns (snd a)))"
    by (simp add: first_request_start_ns_def ts Let_def)
  also have "\<dots> \<in> insert (timespec_ns (fst a)) ((\<lambda>t. timespec_ns (fst t)) ` set rest)"
    by (rule ffl_fst_mem)
  finally have mem: "first_request_start_ns ts \<in> ?S" by (simp add: ts)
  have lb: "\<And>x. x \<in> ?S \<Longrightarrow> first_request_start_ns ts \<le> x"
    unfolding first_request_start_ns_def using ffl_fst_lb [OF nz] by blast
  show ?thesis using mem lb by (intro Min_eqI [symmetric]) auto
qed

lemma ffl_append:
  "find_first_last (xs @ ys) f l =
     find_first_last ys (fst (find_first_last xs f l)) (snd (find_first_last xs f l))"
  by (induction xs arbitrary: f l) (simp_all add: Let_def)

text \<open>A start time of zero in the last position is kept: it is the minimum.\<close>

lemma first_request_start_last_zero:
  assumes "ts \<noteq> []" and z: "timespec_ns (fst (last ts)) = 0"
  shows "first_request_start_ns ts = Min ((\<lambda>t. timespec_ns (fst t)) ` set ts)"
proof -
  let ?S = "(\<lambda>t. timespec_ns (fst t)) ` set ts"
  have ts: "ts = butlast ts @ [last ts]" using assms(1) by simp
  have "first_request_start_ns ts =
      fst (find_first_last (butlast ts @ [last ts]) 0 0)"
    unfolding first_request_start_ns_def using ts by simp
  also have "\<dots> = 0"
    unfolding ffl_append by (simp add: Let_def z word_gt_0)
  finally have f: "first_request_start_ns ts = 0" .
  have "last ts \<in> set ts" using assms(1) by simp
  then have mem: "0 \<in> ?S" using z by force
  show ?thesis unfolding f using mem by (intro Min_eqI [symmetric]) auto
qed

lemma first_request_start_Min:
  assumes "ts \<noteq> []"
    and "(\<forall>t\<in>set ts. timespec_ns (fst t) \<noteq> 0) \<or> timespec_ns (fst (last ts)) = 0"
  shows "first_request_start_ns ts = Min ((\<lambda>t. timespec_ns (fst t)) ` set ts)"
  using assms first_request_start_Min_nonzero first_request_start_last_zero by blast

subsection \<open>The window in unbounded arithmetic\<close>

lemma spec_t0_eq:
  assumes "ts \<noteq> []"
    and "(\<forall>t\<in>set ts. timespec_ns (fst t) \<noteq> 0) \<or> timespec_ns (fst (last ts)) = 0"
  shows "uint (first_request_start_ns ts) = spec_t0 ts"
proof -
  have "uint (Min ((\<lambda>t. timespec_ns (fst t)) ` set ts)) = Min (uint ` (\<lambda>t. timespec_ns (fst t)) ` set ts)"
    using assms(1) by (intro mono_Min_commute) (auto simp: mono_def word_le_def)
  then show ?thesis
    by (simp add: first_request_start_Min [OF assms] spec_t0_def image_image)
qed

lemma spec_tN_eq:
  assumes "ts \<noteq> []"
  shows "uint (last_request_end_ns ts) = spec_tN ts"
proof -
  have "uint (Max ((\<lambda>t. timespec_ns (snd t)) ` set ts)) = Max (uint ` (\<lambda>t. timespec_ns (snd t)) ` set ts)"
    using assms(1) by (intro mono_Max_commute) (auto simp: mono_def word_le_def)
  then show ?thesis
    by (simp add: last_request_end_Max [OF assms] spec_tN_def image_image)
qed

lemma window_ns_eq:
  assumes "spec_W m < 2 ^ 64"
  shows "uint (measurement_window_ns m) = spec_W m"
proof -
  have "uint (m_measurement_window_ms m * 1000000) = uint (m_measurement_window_ms m) * uint (1000000 :: u64)"
    using assms by (subst uint_mult_lem [symmetric]) (simp add: spec_W_def)
  then show ?thesis by (simp add: measurement_window_ns_def spec_W_def mult.assoc)
qed

lemma window_offset_uint:
  fixes t0 tN W :: u64
  assumes "uint t0 + uint W < 2 ^ 64"
  shows "uint (window_offset t0 tN W) = max 0 ((uint tN - (uint t0 + uint W)) div 2)"
proof -
  have s: "uint (t0 + W) = uint t0 + uint W"
    using assms by (simp add: uint_add_lem [symmetric])
  show ?thesis
  proof (cases "t0 + W > tN")
    case True
    then have "uint tN < uint t0 + uint W" using s by (simp add: word_less_def)
    then show ?thesis using True by (simp add: window_offset_def Let_def max_def)
  next
    case False
    then have le: "uint (t0 + W) \<le> uint tN" by (simp add: word_le_def not_less)
    then have "uint (tN - (t0 + W)) = uint tN - uint (t0 + W)"
      by (simp add: uint_sub_lem [symmetric])
    then have "uint ((tN - (t0 + W)) div 2) = (uint tN - (uint t0 + uint W)) div 2"
      by (simp add: uint_div s)
    then show ?thesis using False le s by (simp add: window_offset_def Let_def max_def)
  qed
qed

lemma window_no_wrap:
  fixes t0 tN W :: u64
  assumes "uint t0 + uint W < 2 ^ 64"
  shows "uint (t0 + window_offset t0 tN W) = uint t0 + uint (window_offset t0 tN W)"
    and "uint (t0 + window_offset t0 tN W + W) = uint t0 + uint (window_offset t0 tN W) + uint W"
proof -
  let ?o = "uint (window_offset t0 tN W)"
  have o: "?o = max 0 ((uint tN - (uint t0 + uint W)) div 2)"
    by (rule window_offset_uint [OF assms])
  have tN: "uint tN < 2 ^ 64" using uint_lt2p [of tN] by simp
  have b: "uint t0 + ?o + uint W < 2 ^ 64"
    using assms tN uint_ge_0 [of t0] uint_ge_0 [of W] unfolding o by (auto simp: max_def)
  have b0: "uint t0 + ?o < 2 ^ 64" using b uint_ge_0 [of W] by linarith
  show 1: "uint (t0 + window_offset t0 tN W) = uint t0 + ?o"
    using b0 by (simp add: uint_add_lem [symmetric])
  have "uint (t0 + window_offset t0 tN W) + uint W < 2 ^ LENGTH(64)"
    using b unfolding 1 by simp
  then have "uint (t0 + window_offset t0 tN W + W) = uint (t0 + window_offset t0 tN W) + uint W"
    by (simp only: uint_add_lem)
  then show "uint (t0 + window_offset t0 tN W + W) = uint t0 + ?o + uint W"
    unfolding 1 .
qed

lemma count_measure_window:
  "valid_timestamp_count (measure_window cs ce ts a) =
     valid_timestamp_count a + of_nat (length (filter (in_window cs ce) ts))"
  by (induction ts arbitrary: a) (simp_all add: add_latency_def)


text \<open>
  Claim C1.  The Sampler takes \<open>t0\<close> as the minimum start time and \<open>tN\<close> as the
  maximum end time of the snapshot, places the window at
  \<open>offset = max(0, (tN - (t0 + W)) / 2)\<close>, \<open>client_start = t0 + offset\<close>,
  \<open>client_end = client_start + W\<close>, and counts exactly the timestamps \<open>(s, e)\<close> with
  \<open>s \<le> e\<close> and \<open>client_start \<le> e \<le> client_end\<close>.  The times are those of the
  snapshot that the workers fill: readings of the monotonic clock, which are positive
  (the loop reads a stored \<open>0\<close> as "not yet set"; a start time of zero is covered
  where it is the last one of the snapshot), and a window \<open>W\<close> of
  \<open>measurement_window_ms * 10^6\<close> nanoseconds for which \<open>t0 + W\<close> is a 64-bit
  time.
\<close>

theorem window_selection:
  assumes ne: "ts \<noteq> []"
    and nz: "(\<forall>t\<in>set ts. timespec_ns (fst t) \<noteq> 0) \<or> timespec_ns (fst (last ts)) = 0"
    and fit: "spec_t0 ts + spec_W m < 2 ^ 64"
  shows "uint (first_request_start_ns ts) = spec_t0 ts \<and>
         uint (last_request_end_ns ts) = spec_tN ts \<and>
         uint (window_offset (first_request_start_ns ts) (last_request_end_ns ts)
                 (measurement_window_ns m)) = spec_offset m ts \<and>
         uint (client_start_ns m ts) = spec_client_start m ts \<and>
         uint (client_end_ns m ts) = spec_client_end m ts \<and>
         in_window (client_start_ns m ts) (client_end_ns m ts) = spec_inside m ts \<and>
         valid_timestamp_count
           (measure_window (client_start_ns m ts) (client_end_ns m ts) ts init_acc) =
         of_nat (length (filter (spec_inside m ts) ts))"
proof -
  let ?t0 = "first_request_start_ns ts" and ?tN = "last_request_end_ns ts"
  let ?W = "measurement_window_ns m"
  have t0: "uint ?t0 = spec_t0 ts" by (rule spec_t0_eq [OF ne nz])
  have tN: "uint ?tN = spec_tN ts" by (rule spec_tN_eq [OF ne])
  have "0 \<le> spec_t0 ts" using uint_ge_0 [of ?t0] unfolding t0 .
  then have "spec_W m < 2 ^ 64" using fit by linarith
  then have W: "uint ?W = spec_W m" by (rule window_ns_eq)
  have fit': "uint ?t0 + uint ?W < 2 ^ 64" using fit by (simp add: t0 W)
  have off: "uint (window_offset ?t0 ?tN ?W) = spec_offset m ts"
    by (simp add: window_offset_uint [OF fit'] spec_offset_def t0 tN W)
  have cs: "uint (client_start_ns m ts) = spec_client_start m ts"
    by (simp add: client_start_ns_def window_no_wrap(1) [OF fit'] spec_client_start_def t0 off)
  have ce: "uint (client_end_ns m ts) = spec_client_end m ts"
    by (simp add: client_end_ns_def client_start_ns_def window_no_wrap(2) [OF fit']
          spec_client_end_def spec_client_start_def t0 off W)
  have "in_window (client_start_ns m ts) (client_end_ns m ts) t = spec_inside m ts t" for t
    by (simp add: in_window_def spec_inside_def Let_def word_le_def cs ce)
  then have iw: "in_window (client_start_ns m ts) (client_end_ns m ts) = spec_inside m ts"
    by (rule ext)
  have cnt: "valid_timestamp_count
           (measure_window (client_start_ns m ts) (client_end_ns m ts) ts init_acc) =
         of_nat (length (filter (spec_inside m ts) ts))"
    by (simp add: count_measure_window iw init_acc_def)
  show ?thesis using t0 tN off cs ce iw cnt by blast
qed

lemmas example_window_defs =
  example_timestamps_def example_manager_def timespec_ns_def NANOS_PER_SECOND_def
  spec_t0_def spec_tN_def spec_W_def spec_offset_def spec_client_start_def
  spec_client_end_def spec_inside_def

theorem window_selection_witness:
  "example_timestamps \<noteq> [] \<and>
   0 \<notin> (\<lambda>t. timespec_ns (fst t)) ` set example_timestamps \<and>
   spec_t0 example_timestamps + spec_W example_manager < 2 ^ 64 \<and>
   uint (first_request_start_ns example_timestamps) = 1000000000 \<and>
   uint (last_request_end_ns example_timestamps) = 1003000000 \<and>
   uint (client_start_ns example_manager example_timestamps) = 1001000000 \<and>
   uint (client_end_ns example_manager example_timestamps) = 1002000000 \<and>
   valid_timestamp_count
     (measure_window (client_start_ns example_manager example_timestamps)
        (client_end_ns example_manager example_timestamps) example_timestamps init_acc) = 1"
proof -
  have ne: "example_timestamps \<noteq> []" by (simp add: example_timestamps_def)
  have nz: "\<forall>t\<in>set example_timestamps. timespec_ns (fst t) \<noteq> 0"
    by (simp add: example_window_defs)
  have fit: "spec_t0 example_timestamps + spec_W example_manager < 2 ^ 64"
    by (simp add: example_window_defs)
  note c = window_selection [OF ne disjI1 [OF nz] fit]
  have s0: "spec_t0 example_timestamps = 1000000000" by (simp add: example_window_defs)
  have sN: "spec_tN example_timestamps = 1003000000" by (simp add: example_window_defs)
  have sc: "spec_client_start example_manager example_timestamps = 1001000000" 
    by (simp add: example_window_defs)
  have se: "spec_client_end example_manager example_timestamps = 1002000000" 
    by (simp add: example_window_defs)
  have sl: "length (filter (spec_inside example_manager example_timestamps) example_timestamps) = 1" 
    by (simp add: example_window_defs)
  have nz': "0 \<notin> (\<lambda>t. timespec_ns (fst t)) ` set example_timestamps"
    using nz by force
  show ?thesis
    using ne nz' fit c unfolding s0 sN sc se sl by simp
qed

section \<open>Evaluation on concrete inputs\<close>

lemma floor_rat_numeral_div: "\<lfloor>numeral a / numeral b :: rat\<rfloor> = numeral a div numeral b"
  using floor_divide_of_int_eq [of "numeral a" "numeral b", where ?'a = rat] by simp

lemma ceiling_rat_numeral_div:
  "\<lceil>numeral a / numeral b :: rat\<rceil> = - ((- numeral a) div numeral b)"
  using floor_divide_of_int_eq [of "- numeral a" "numeral b", where ?'a = rat]
  by (simp add: ceiling_def)

lemmas rn_eval =
  rn_def binexp_def bitlen_nat.simps round_half_even_def pow2_def Let_def
  floor_rat_numeral_div ceiling_rat_numeral_div

lemmas window_eval =
  client_start_ns_def client_end_ns_def first_request_start_ns_def last_request_end_ns_def
  window_offset_def measurement_window_ns_def in_window_def timespec_ns_def
  NANOS_PER_SECOND_def add_latency_def init_acc_def

lemmas client_eval =
  Summarize_client_def window_eval context_averages_def infer_per_sec_of_def
  client_duration_sec_def float_to_int_def var_us_of_def floor_sqrt_u64_def sqrt_bits.simps

section \<open>The context averages\<close>

lemma context_averages_unchanged:
  "completed_request_count end_stat = completed_request_count start_stat \<Longrightarrow>
     context_averages start_stat end_stat summary = summary"
  by (simp add: context_averages_def)

text \<open>
  Claim C7.  With a completed-request delta of zero, \<open>Summarize\<close> assigns none of the
  three averages: the \<open>PerfStatus\<close> it returns holds whatever the caller's held
  before, not zero.
\<close>

theorem zero_delta_keeps_averages:
  assumes "completed_request_count end_stat = completed_request_count start_stat"
    and "Summarize_client sqrt_u64 m ts start_stat end_stat summary = Inr s"
  shows "client_avg_request_time_ns s = client_avg_request_time_ns summary \<and>
         client_avg_send_time_ns s = client_avg_send_time_ns summary \<and>
         client_avg_receive_time_ns s = client_avg_receive_time_ns summary"
  using assms
  by (auto simp: Summarize_client_def Let_def context_averages_unchanged split: if_splits)

lemma example_client_runs:
  "\<exists>s. Summarize_client floor_sqrt_u64 example_manager example_timestamps idle_stat idle_stat
         stale_summary = Inr s"
  by (simp add: client_eval example_manager_def example_timestamps_def)

theorem zero_delta_keeps_averages_witness:
  "completed_request_count idle_stat = completed_request_count idle_stat \<and>
   (\<exists>s. Summarize_client floor_sqrt_u64 example_manager example_timestamps idle_stat idle_stat
          stale_summary = Inr s \<and>
        client_avg_request_time_ns s = 50000 \<and> client_avg_send_time_ns s = 7500 \<and>
        client_avg_receive_time_ns s = 2500)"
proof -
  obtain s where s: "Summarize_client floor_sqrt_u64 example_manager example_timestamps
      idle_stat idle_stat stale_summary = Inr s"
    using example_client_runs by blast
  have "client_avg_request_time_ns s = client_avg_request_time_ns stale_summary \<and>
        client_avg_send_time_ns s = client_avg_send_time_ns stale_summary \<and>
        client_avg_receive_time_ns s = client_avg_receive_time_ns stale_summary"
    by (rule zero_delta_keeps_averages [OF refl s])
  then show ?thesis using s by (simp add: stale_summary_def)
qed

section \<open>The variance\<close>

lemma slow_window_acc:
  "measure_window (client_start_ns slow_manager slow_timestamps)
     (client_end_ns slow_manager slow_timestamps) slow_timestamps init_acc =
   \<lparr>valid_timestamp_count = 2, min_latency_ns = 1000000000, max_latency_ns = 5000000000,
    tol_latency_ns = 6000000000, tol_square_latency_us = 7553255926290\<rparr>"
  by (simp add: window_eval slow_manager_def example_manager_def slow_timestamps_def)

text \<open>
  Claim C5.  A window with two requests of 5 s and 1 s latency: the square of
  \<open>5 \<sqdot> 10\<^sup>9\<close> ns does not fit 64 bits, the sum of squares comes out as
  \<open>7553255926290\<close> instead of \<open>26 \<sqdot> 10\<^sup>12\<close>, and the variance as \<open>0\<close> instead of
  \<open>4 \<sqdot> 10\<^sup>12\<close> square microseconds.
\<close>

theorem variance_overflow:
  "map unat (window_latencies slow_manager slow_timestamps) = [5000000000, 1000000000] \<and>
   spec_variance_us [5000000000, 1000000000] = 4000000000000 \<and>
   (5000000000 * 5000000000 :: u64) div (1000 * 1000) = 6553255926290 \<and>
   tol_square_latency_us
     (measure_window (client_start_ns slow_manager slow_timestamps)
        (client_end_ns slow_manager slow_timestamps) slow_timestamps init_acc) = 7553255926290 \<and>
   var_us_of
     (measure_window (client_start_ns slow_manager slow_timestamps)
        (client_end_ns slow_manager slow_timestamps) slow_timestamps init_acc) = 0"
proof -
  have 1: "map unat (window_latencies slow_manager slow_timestamps) = [5000000000, 1000000000]"
    by (simp add: window_latencies_def window_eval slow_manager_def example_manager_def
          slow_timestamps_def)
  have 2: "spec_variance_us [5000000000, 1000000000] = 4000000000000"
    by (simp add: spec_variance_us_def)
  have 3: "(5000000000 * 5000000000 :: u64) div (1000 * 1000) = 6553255926290"
    by simp
  show ?thesis unfolding slow_window_acc using 1 2 3 by (simp add: var_us_of_def)
qed

section \<open>The server's counters\<close>

lemma InitForModel_Inr:
  assumes "InitForModel get_model_config model_name st = Inr st'"
  obtains model_config where "get_model_config model_name = Inr model_config"
    and "st' = st\<lparr>model_status := (model_status st)(model_name \<mapsto>
                  \<lparr>config = Some model_config, version_status = []\<rparr>)\<rparr>"
proof -
  obtain model_config where c: "get_model_config model_name = Inr model_config"
    using assms by (auto simp: InitForModel_def split: sum.splits)
  have "st' = st\<lparr>model_status := (model_status st)(model_name \<mapsto>
                  \<lparr>config = Some model_config, version_status = []\<rparr>)\<rparr>"
    using assms c
    by (cases "model_status st model_name")
       (auto simp: InitForModel_def Let_def empty_ModelStatus_def)
  then show ?thesis using c that by blast
qed

lemma update_counters:
  assumes "model_status st model_name = Some ms" and "bs \<noteq> 0"
  shows "server_counters
           (UpdateSuccessInferStats model_name model_version bs execution_cnt
              request_duration_ns run_duration_ns compute_duration_ns st)
           model_name model_version bs =
         (let c = server_counters st model_name model_version bs
          in \<lparr>cnt = cnt c + 1, cumm_time_ns = cumm_time_ns c + request_duration_ns,
              queue_time_ns = queue_time_ns c + (run_duration_ns - compute_duration_ns),
              compute_time_ns = compute_time_ns c + compute_duration_ns\<rparr>)"
proof (cases "map_of (version_status ms) model_version")
  case None
  then show ?thesis using assms
    by (simp add: UpdateSuccessInferStats_def server_counters_def start_counters_def
          Let_def update_conv find_infer_stats_def counters_of_def zero_counters_def
          new_success_stats_def empty_ModelVersionStatus_def empty_InferRequestStats_def
          empty_StatDuration_def)
next
  case (Some vs)
  show ?thesis
  proof (cases "infer_stats vs (ucast bs)")
    case None
    then show ?thesis using assms Some
      by (simp add: UpdateSuccessInferStats_def server_counters_def start_counters_def
          Let_def update_conv find_infer_stats_def counters_of_def zero_counters_def
          new_success_stats_def empty_InferRequestStats_def empty_StatDuration_def)
  next
    case (Some stats)
    then show ?thesis using assms \<open>map_of (version_status ms) model_version = Some vs\<close>
      by (simp add: UpdateSuccessInferStats_def server_counters_def start_counters_def
          Let_def update_conv find_infer_stats_def counters_of_def add_success_stats_def)
  qed
qed


text \<open>
  Claim C10.  \<open>InitForModel\<close> leaves every other model's entry as it was, and the
  entry of \<open>model_name\<close> holds the fresh configuration and nothing else, whatever it
  held before: all its counters read zero, and the next successful inference counts as
  the first.
\<close>

theorem InitForModel_frame_and_reset:
  assumes "InitForModel get_model_config model_name st = Inr st'"
  shows "(\<forall>other. other \<noteq> model_name \<longrightarrow> model_status st' other = model_status st other) \<and>
         server_version st' = server_version st \<and>
         (\<exists>model_config. get_model_config model_name = Inr model_config \<and>
            model_status st' model_name =
              Some \<lparr>config = Some model_config, version_status = []\<rparr>) \<and>
         (\<forall>model_version bs. server_counters st' model_name model_version bs = zero_counters) \<and>
         (\<forall>model_version bs execution_cnt request_duration_ns run_duration_ns compute_duration_ns.
            bs \<noteq> 0 \<longrightarrow>
            server_counters
              (UpdateSuccessInferStats model_name model_version bs execution_cnt
                 request_duration_ns run_duration_ns compute_duration_ns st')
              model_name model_version bs =
            \<lparr>cnt = 1, cumm_time_ns = request_duration_ns,
             queue_time_ns = run_duration_ns - compute_duration_ns,
             compute_time_ns = compute_duration_ns\<rparr>)"
proof -
  obtain model_config where c: "get_model_config model_name = Inr model_config"
    and st': "st' = st\<lparr>model_status := (model_status st)(model_name \<mapsto>
                  \<lparr>config = Some model_config, version_status = []\<rparr>)\<rparr>"
    using assms by (rule InitForModel_Inr)
  have tracked: "model_status st' model_name =
      Some \<lparr>config = Some model_config, version_status = []\<rparr>"
    by (simp add: st')
  have zero: "server_counters st' model_name model_version bs = zero_counters"
    for model_version bs
    by (simp add: server_counters_def tracked start_counters_def)
  have first: "server_counters
              (UpdateSuccessInferStats model_name model_version bs execution_cnt
                 request_duration_ns run_duration_ns compute_duration_ns st')
              model_name model_version bs =
            \<lparr>cnt = 1, cumm_time_ns = request_duration_ns,
             queue_time_ns = run_duration_ns - compute_duration_ns,
             compute_time_ns = compute_duration_ns\<rparr>"
    if "bs \<noteq> 0"
    for model_version bs execution_cnt request_duration_ns run_duration_ns compute_duration_ns
    using update_counters [OF tracked that] by (simp add: zero Let_def zero_counters_def)
  show ?thesis using c tracked zero first by (auto simp: st')
qed

lemmas server_example_defs =
  example_server_def example_model_def example_version_def example_stats_def
  server_counters_def start_counters_def find_infer_stats_def counters_of_def
  zero_counters_def

theorem InitForModel_frame_and_reset_witness:
  "\<exists>st'. InitForModel (\<lambda>name. Inr 8) ''resnet'' example_server = Inr st' \<and>
      cnt (server_counters example_server ''resnet'' 1 1) = 5 \<and>
      server_counters st' ''resnet'' 1 1 = zero_counters \<and>
      model_status st' ''bert'' = model_status example_server ''bert'' \<and>
      model_status st' ''resnet'' = Some \<lparr>config = Some 8, version_status = []\<rparr>"
proof -
  obtain st' where st': "InitForModel (\<lambda>name. Inr 8) ''resnet'' example_server = Inr st'"
    by (simp add: InitForModel_def Let_def)
  have five: "cnt (server_counters example_server ''resnet'' 1 1) = 5"
    by (simp add: server_example_defs)
  show ?thesis
    using InitForModel_frame_and_reset [OF st'] st' five by auto
qed

section \<open>The Summary Composer\<close>

lemma latest_version_Max:
  "latest_version vs v = Max (insert v (fst ` set vs))"
proof (induction vs arbitrary: v)
  case Nil
  then show ?case by simp
next
  case (Cons vp vs)
  have "Max (insert (max v (fst vp)) (fst ` set vs)) = Max (insert v (insert (fst vp) (fst ` set vs)))"
    by (cases "fst ` set vs = {}") (simp_all add: max.assoc)
  then show ?case by (simp add: Cons.IH)
qed

lemma Summarize_server_ok:
  assumes "map_of (version_status end_status) (status_model_version m end_status) = Some vend"
    and "find_infer_stats vend (m_batch_size m) = Some end_stats"
  shows "Summarize_server m start_status end_status summary =
     (Error SUCCESS [],
      summary\<lparr>server_request_count := count (success end_stats)
                 - cnt (start_counters start_status (status_model_version m end_status) (m_batch_size m)),
               server_cumm_time_ns := total_time_ns (success end_stats)
                 - cumm_time_ns (start_counters start_status (status_model_version m end_status) (m_batch_size m)),
               server_queue_time_ns := total_time_ns (queue end_stats)
                 - queue_time_ns (start_counters start_status (status_model_version m end_status) (m_batch_size m)),
               server_compute_time_ns := total_time_ns (compute end_stats)
                 - compute_time_ns (start_counters start_status (status_model_version m end_status) (m_batch_size m))\<rparr>)"
  using assms by (simp add: Summarize_server_def Let_def)

lemma Summarize_server_fails_iff:
  "\<not> IsOk (fst (Summarize_server m start_status end_status summary)) \<longleftrightarrow>
     (case map_of (version_status end_status) (status_model_version m end_status) of
        None \<Rightarrow> True
      | Some vend \<Rightarrow> find_infer_stats vend (m_batch_size m) = None)"
  by (simp add: Summarize_server_def Let_def split: option.splits)

lemma word_le_add_no_wrap:
  fixes a b :: u64
  assumes "unat a + unat b < 2 ^ 64"
  shows "a \<le> a + b"
proof -
  have "unat (a + b) = unat a + unat b"
    using assms by (simp add: unat_add_lem [THEN iffD1])
  then show ?thesis by (simp add: word_le_nat_alt)
qed

text \<open>
  \<open>UpdateSuccessInferStats\<close> does nothing for a model that is not tracked and for a
  batch size of zero, and otherwise writes one entry only: the counters of every other
  model, version and batch size read as before.
\<close>

lemma update_ignored:
  "model_status st model_name = None \<or> bs = 0 \<Longrightarrow>
     UpdateSuccessInferStats model_name model_version bs execution_cnt
       request_duration_ns run_duration_ns compute_duration_ns st = st"
  by (auto simp: UpdateSuccessInferStats_def split: option.splits)

lemma update_frame:
  assumes other: "(model_name', model_version', (ucast bs' :: u32)) \<noteq>
                  (model_name, model_version, ucast bs)"
  shows "server_counters
           (UpdateSuccessInferStats model_name model_version bs execution_cnt
              request_duration_ns run_duration_ns compute_duration_ns st)
           model_name' model_version' bs' =
         server_counters st model_name' model_version' bs'"
proof (cases "model_status st model_name")
  case None
  then show ?thesis by (simp add: update_ignored)
next
  case (Some ms)
  show ?thesis
  proof (cases "bs = 0")
    case True
    then show ?thesis by (simp add: update_ignored)
  next
    case False
    show ?thesis
    proof (cases "model_name' = model_name")
      case n: False
      then show ?thesis using Some False
        by (simp add: UpdateSuccessInferStats_def server_counters_def Let_def)
    next
      case n: True
      show ?thesis
      proof (cases "model_version' = model_version")
        case v: False
        then show ?thesis using Some False n
          by (simp add: UpdateSuccessInferStats_def server_counters_def Let_def
                start_counters_def update_conv)
      next
        case v: True
        then have b: "(ucast bs' :: u32) \<noteq> ucast bs" using other n by simp
        show ?thesis
        proof (cases "map_of (version_status ms) model_version")
          case None
          then show ?thesis using Some False n v b
            by (simp add: UpdateSuccessInferStats_def server_counters_def Let_def
                  start_counters_def update_conv find_infer_stats_def)
        next
          case vs: (Some vs)
          then show ?thesis using Some False n v b
            by (cases "infer_stats vs (ucast bs)")
               (simp_all add: UpdateSuccessInferStats_def server_counters_def Let_def
                  start_counters_def update_conv find_infer_stats_def)
        qed
      qed
    qed
  qed
qed

text \<open>
  Claim C4, amended.  A successful-inference update of a tracked model with a non-zero
  batch size adds 1 to the entry's \<open>success.count\<close> and the request, queue
  (\<open>run - compute\<close>) and compute durations to its three totals, modulo \<open>2^64\<close>, an
  entry that does not exist counting as zero; so none of its counters decreases as
  long as none of the additions wraps.  The counters of every other model, version and
  batch size are left as they were, and an update for a model that is not tracked or
  with a batch size of zero changes nothing at all.  The Summary Composer emits
  \<open>end - start\<close> modulo \<open>2^64\<close> whenever the end status has the entry, and reports
  no error.
\<close>

theorem server_counters_and_deltas:
  assumes vend: "map_of (version_status end_status) (status_model_version m end_status) = Some vend"
    and estats: "find_infer_stats vend (m_batch_size m) = Some end_stats"
  shows
    "(let st' = UpdateSuccessInferStats model_name model_version bs execution_cnt
                  request_duration_ns run_duration_ns compute_duration_ns st;
          c = server_counters st model_name model_version bs;
          c' = server_counters st' model_name model_version bs
      in (model_status st model_name = None \<or> bs = 0 \<longrightarrow> st' = st) \<and>
         (model_status st model_name \<noteq> None \<and> bs \<noteq> 0 \<longrightarrow>
            cnt c' = cnt c + 1 \<and>
            cumm_time_ns c' = cumm_time_ns c + request_duration_ns \<and>
            queue_time_ns c' = queue_time_ns c + (run_duration_ns - compute_duration_ns) \<and>
            compute_time_ns c' = compute_time_ns c + compute_duration_ns \<and>
            (unat (cnt c) + 1 < 2 ^ 64 \<longrightarrow> cnt c \<le> cnt c') \<and>
            (unat (cumm_time_ns c) + unat request_duration_ns < 2 ^ 64 \<longrightarrow>
               cumm_time_ns c \<le> cumm_time_ns c') \<and>
            (unat (queue_time_ns c) + unat (run_duration_ns - compute_duration_ns) < 2 ^ 64 \<longrightarrow>
               queue_time_ns c \<le> queue_time_ns c') \<and>
            (unat (compute_time_ns c) + unat compute_duration_ns < 2 ^ 64 \<longrightarrow>
               compute_time_ns c \<le> compute_time_ns c')) \<and>
         (\<forall>model_name' model_version' bs'.
            (model_name', model_version', (ucast bs' :: u32)) \<noteq>
              (model_name, model_version, ucast bs) \<longrightarrow>
            server_counters st' model_name' model_version' bs' =
              server_counters st model_name' model_version' bs')) \<and>
     (let start = start_counters start_status (status_model_version m end_status) (m_batch_size m);
          r = Summarize_server m start_status end_status summary
      in fst r = Error SUCCESS [] \<and>
         server_request_count (snd r) = count (success end_stats) - cnt start \<and>
         server_cumm_time_ns (snd r) = total_time_ns (success end_stats) - cumm_time_ns start \<and>
         server_queue_time_ns (snd r) = total_time_ns (queue end_stats) - queue_time_ns start \<and>
         server_compute_time_ns (snd r) =
           total_time_ns (compute end_stats) - compute_time_ns start)"
proof -
  let ?st' = "UpdateSuccessInferStats model_name model_version bs execution_cnt
                request_duration_ns run_duration_ns compute_duration_ns st"
  let ?c = "server_counters st model_name model_version bs"
  let ?c' = "server_counters ?st' model_name model_version bs"
  have ignored: "model_status st model_name = None \<or> bs = 0 \<longrightarrow> ?st' = st"
    using update_ignored by blast
  have addressed: "cnt ?c' = cnt ?c + 1 \<and>
        cumm_time_ns ?c' = cumm_time_ns ?c + request_duration_ns \<and>
        queue_time_ns ?c' = queue_time_ns ?c + (run_duration_ns - compute_duration_ns) \<and>
        compute_time_ns ?c' = compute_time_ns ?c + compute_duration_ns \<and>
        (unat (cnt ?c) + 1 < 2 ^ 64 \<longrightarrow> cnt ?c \<le> cnt ?c') \<and>
        (unat (cumm_time_ns ?c) + unat request_duration_ns < 2 ^ 64 \<longrightarrow>
           cumm_time_ns ?c \<le> cumm_time_ns ?c') \<and>
        (unat (queue_time_ns ?c) + unat (run_duration_ns - compute_duration_ns) < 2 ^ 64 \<longrightarrow>
           queue_time_ns ?c \<le> queue_time_ns ?c') \<and>
        (unat (compute_time_ns ?c) + unat compute_duration_ns < 2 ^ 64 \<longrightarrow>
           compute_time_ns ?c \<le> compute_time_ns ?c')"
    if present: "model_status st model_name \<noteq> None \<and> bs \<noteq> 0"
  proof -
    obtain ms where tracked: "model_status st model_name = Some ms" and bs: "bs \<noteq> 0"
      using present by blast
    have upd: "?c' =
         \<lparr>cnt = cnt ?c + 1, cumm_time_ns = cumm_time_ns ?c + request_duration_ns,
          queue_time_ns = queue_time_ns ?c + (run_duration_ns - compute_duration_ns),
          compute_time_ns = compute_time_ns ?c + compute_duration_ns\<rparr>"
      using update_counters [OF tracked bs] by (simp add: Let_def)
    show ?thesis
      unfolding upd
      using word_le_add_no_wrap [of "cnt ?c" 1]
      by (simp add: word_le_add_no_wrap)
  qed
  have frame: "\<forall>model_name' model_version' bs'.
        (model_name', model_version', (ucast bs' :: u32)) \<noteq>
          (model_name, model_version, ucast bs) \<longrightarrow>
        server_counters ?st' model_name' model_version' bs' =
          server_counters st model_name' model_version' bs'"
    using update_frame by blast
  have second: "(let start = start_counters start_status (status_model_version m end_status) (m_batch_size m);
          r = Summarize_server m start_status end_status summary
      in fst r = Error SUCCESS [] \<and>
         server_request_count (snd r) = count (success end_stats) - cnt start \<and>
         server_cumm_time_ns (snd r) = total_time_ns (success end_stats) - cumm_time_ns start \<and>
         server_queue_time_ns (snd r) = total_time_ns (queue end_stats) - queue_time_ns start \<and>
         server_compute_time_ns (snd r) =
           total_time_ns (compute end_stats) - compute_time_ns start)"
    unfolding Summarize_server_ok [OF vend estats] Let_def by simp
  show ?thesis
    unfolding Let_def using ignored addressed frame second [unfolded Let_def] by blast
qed

lemma example_resolves_1:
  "status_model_version example_manager example_model = 1"
  "status_model_version example_manager readded_model = 1"
  by (simp_all add: status_model_version_def example_manager_def example_model_def
        readded_model_def)

theorem server_counters_and_deltas_witness:
  "model_status example_server ''resnet'' = Some example_model \<and>
   cnt (server_counters example_server ''resnet'' 1 1) = 5 \<and>
   cnt (server_counters
          (UpdateSuccessInferStats ''resnet'' 1 1 1 1000 800 600 example_server)
          ''resnet'' 1 1) = 6 \<and>
   queue_time_ns (server_counters
          (UpdateSuccessInferStats ''resnet'' 1 1 1 1000 800 600 example_server)
          ''resnet'' 1 1) = 1200 \<and>
   server_counters
     (UpdateSuccessInferStats ''resnet'' 1 1 1 1000 800 600 example_server) ''bert'' 1 1 =
     \<lparr>cnt = 5, cumm_time_ns = 5000, queue_time_ns = 1000, compute_time_ns = 3000\<rparr> \<and>
   server_counters
     (UpdateSuccessInferStats ''resnet'' 1 1 1 1000 800 600 example_server) ''resnet'' 1 2 =
     zero_counters \<and>
   UpdateSuccessInferStats ''resnet'' 1 0 1 1000 800 600 example_server = example_server \<and>
   fst (Summarize_server example_manager readded_model example_model stale_summary) =
     Error SUCCESS [] \<and>
   server_request_count
     (snd (Summarize_server example_manager readded_model example_model stale_summary)) = 2"
proof -
  have tracked: "model_status example_server ''resnet'' = Some example_model"
    by (simp add: example_server_def)
  have vend: "map_of (version_status example_model)
      (status_model_version example_manager example_model) = Some example_version"
    by (simp add: example_resolves_1) (simp add: example_model_def)
  have estats: "find_infer_stats example_version (m_batch_size example_manager) =
      Some example_stats"
    by (simp add: find_infer_stats_def example_version_def example_manager_def)
  have c: "server_counters example_server ''resnet'' 1 1 =
      \<lparr>cnt = 5, cumm_time_ns = 5000, queue_time_ns = 1000, compute_time_ns = 3000\<rparr>"
    "server_counters example_server ''bert'' 1 1 =
      \<lparr>cnt = 5, cumm_time_ns = 5000, queue_time_ns = 1000, compute_time_ns = 3000\<rparr>"
    "server_counters example_server ''resnet'' 1 2 = zero_counters"
    by (simp_all add: server_example_defs)
  have start: "start_counters readded_model 1 (m_batch_size example_manager) =
      \<lparr>cnt = 3, cumm_time_ns = 3000, queue_time_ns = 600, compute_time_ns = 1800\<rparr>"
    by (simp add: start_counters_def readded_model_def find_infer_stats_def counters_of_def
          readded_stats_def example_manager_def)
  note t = server_counters_and_deltas [OF vend estats, unfolded Let_def]
  note u = t [where model_name = "''resnet''" and model_version = 1 and bs = 1
      and execution_cnt = 1 and request_duration_ns = 1000 and run_duration_ns = 800
      and compute_duration_ns = 600 and st = example_server and start_status = readded_model
      and summary = stale_summary]
  have bert: "server_counters
     (UpdateSuccessInferStats ''resnet'' 1 1 1 1000 800 600 example_server) ''bert'' 1 1 =
     server_counters example_server ''bert'' 1 1"
    using u by simp
  have two: "server_counters
     (UpdateSuccessInferStats ''resnet'' 1 1 1 1000 800 600 example_server) ''resnet'' 1 2 =
     server_counters example_server ''resnet'' 1 2"
    using u by simp
  have zero: "UpdateSuccessInferStats ''resnet'' 1 0 1 1000 800 600 example_server =
      example_server"
    using t [where model_name = "''resnet''" and model_version = 1 and bs = 0
      and execution_cnt = 1 and request_duration_ns = 1000 and run_duration_ns = 800
      and compute_duration_ns = 600 and st = example_server and start_status = readded_model
      and summary = stale_summary]
    by simp
  have rest: "cnt (server_counters
          (UpdateSuccessInferStats ''resnet'' 1 1 1 1000 800 600 example_server)
          ''resnet'' 1 1) = 6 \<and>
     queue_time_ns (server_counters
          (UpdateSuccessInferStats ''resnet'' 1 1 1 1000 800 600 example_server)
          ''resnet'' 1 1) = 1200 \<and>
     fst (Summarize_server example_manager readded_model example_model stale_summary) =
       Error SUCCESS [] \<and>
     server_request_count
       (snd (Summarize_server example_manager readded_model example_model stale_summary)) = 2"
    using u by (simp add: tracked c start example_resolves_1 example_stats_def)
  show ?thesis using tracked c bert two zero rest by simp
qed

text \<open>
  Claim C4 as stated fails twice.  When the model was added again during the window, the
  end counter (3) is below the start counter (5): the Composer reports success and a
  request count of \<open>2^64 - 2\<close>.  And an update whose compute duration (7) exceeds its run
  duration (5) lowers the queue total from 1000 to 998.
\<close>

theorem server_counters_and_deltas_counterexample:
  "cnt (start_counters example_model 1 1) = 5 \<and>
   cnt (start_counters readded_model 1 1) = 3 \<and>
   fst (Summarize_server example_manager example_model readded_model stale_summary) =
     Error SUCCESS [] \<and>
   server_request_count
     (snd (Summarize_server example_manager example_model readded_model stale_summary)) =
     18446744073709551614 \<and>
   queue_time_ns (server_counters example_server ''resnet'' 1 1) = 1000 \<and>
   queue_time_ns
     (server_counters (UpdateSuccessInferStats ''resnet'' 1 1 1 1000 5 7 example_server)
        ''resnet'' 1 1) = 998"
  by (simp add: Summarize_server_def status_model_version_def server_example_defs
        readded_model_def readded_stats_def example_manager_def Let_def
        UpdateSuccessInferStats_def add_success_stats_def)

text \<open>
  Claim C6, amended.  A negative requested version resolves to the largest version key
  of the end status, or to 0 when there is none above 0.  Once the client half has
  succeeded, \<open>Summarize\<close> fails exactly when the end status has no entry for the
  resolved version or that entry has no statistics for the batch size; the start
  status never makes it fail.  When the end status has both, \<open>Summarize\<close> succeeds
  and the four server figures are the end counters minus the start counters, where a
  start status that lacks the version, or has the version without statistics for the
  batch size, counts as zero.
\<close>

theorem version_resolution_and_failure:
  assumes client: "Summarize_client sqrt_u64 m ts start_stat end_stat summary = Inr s'"
  shows
    "(m_model_version m < 0 \<longrightarrow>
        status_model_version m end_status =
          Max (insert 0 (fst ` set (version_status end_status)))) \<and>
     (0 \<le> m_model_version m \<longrightarrow> status_model_version m end_status = m_model_version m) \<and>
     (\<not> IsOk (fst (Summarize sqrt_u64 m ts start_status end_status start_stat end_stat summary))
        \<longleftrightarrow>
        (case map_of (version_status end_status) (status_model_version m end_status) of
           None \<Rightarrow> True
         | Some vend \<Rightarrow> find_infer_stats vend (m_batch_size m) = None)) \<and>
     (\<forall>vend end_stats.
        map_of (version_status end_status) (status_model_version m end_status) = Some vend \<longrightarrow>
        find_infer_stats vend (m_batch_size m) = Some end_stats \<longrightarrow>
        (let r = Summarize sqrt_u64 m ts start_status end_status start_stat end_stat summary;
             start = (case map_of (version_status start_status)
                             (status_model_version m end_status) of
                        None \<Rightarrow> None
                      | Some vstart \<Rightarrow> find_infer_stats vstart (m_batch_size m))
         in fst r = Error SUCCESS [] \<and>
            (start = None \<longrightarrow>
               server_request_count (snd r) = count (success end_stats) \<and>
               server_cumm_time_ns (snd r) = total_time_ns (success end_stats) \<and>
               server_queue_time_ns (snd r) = total_time_ns (queue end_stats) \<and>
               server_compute_time_ns (snd r) = total_time_ns (compute end_stats)) \<and>
            (\<forall>start_stats. start = Some start_stats \<longrightarrow>
               server_request_count (snd r) =
                 count (success end_stats) - count (success start_stats) \<and>
               server_cumm_time_ns (snd r) =
                 total_time_ns (success end_stats) - total_time_ns (success start_stats) \<and>
               server_queue_time_ns (snd r) =
                 total_time_ns (queue end_stats) - total_time_ns (queue start_stats) \<and>
               server_compute_time_ns (snd r) =
                 total_time_ns (compute end_stats) - total_time_ns (compute start_stats))))"
proof -
  have S: "Summarize sqrt_u64 m ts start_status end_status start_stat end_stat summary =
      Summarize_server m start_status end_status s'"
    by (simp add: Summarize_def client)
  have 1: "m_model_version m < 0 \<longrightarrow>
        status_model_version m end_status =
          Max (insert 0 (fst ` set (version_status end_status)))"
    by (simp add: status_model_version_def latest_version_Max)
  have 2: "0 \<le> m_model_version m \<longrightarrow> status_model_version m end_status = m_model_version m"
    by (simp add: status_model_version_def)
  have 3: "\<not> IsOk (fst (Summarize sqrt_u64 m ts start_status end_status start_stat end_stat summary))
        \<longleftrightarrow>
        (case map_of (version_status end_status) (status_model_version m end_status) of
           None \<Rightarrow> True
         | Some vend \<Rightarrow> find_infer_stats vend (m_batch_size m) = None)"
    unfolding S by (rule Summarize_server_fails_iff)
  have 4: "\<forall>vend end_stats.
        map_of (version_status end_status) (status_model_version m end_status) = Some vend \<longrightarrow>
        find_infer_stats vend (m_batch_size m) = Some end_stats \<longrightarrow>
        (let r = Summarize sqrt_u64 m ts start_status end_status start_stat end_stat summary;
             start = (case map_of (version_status start_status)
                             (status_model_version m end_status) of
                        None \<Rightarrow> None
                      | Some vstart \<Rightarrow> find_infer_stats vstart (m_batch_size m))
         in fst r = Error SUCCESS [] \<and>
            (start = None \<longrightarrow>
               server_request_count (snd r) = count (success end_stats) \<and>
               server_cumm_time_ns (snd r) = total_time_ns (success end_stats) \<and>
               server_queue_time_ns (snd r) = total_time_ns (queue end_stats) \<and>
               server_compute_time_ns (snd r) = total_time_ns (compute end_stats)) \<and>
            (\<forall>start_stats. start = Some start_stats \<longrightarrow>
               server_request_count (snd r) =
                 count (success end_stats) - count (success start_stats) \<and>
               server_cumm_time_ns (snd r) =
                 total_time_ns (success end_stats) - total_time_ns (success start_stats) \<and>
               server_queue_time_ns (snd r) =
                 total_time_ns (queue end_stats) - total_time_ns (queue start_stats) \<and>
               server_compute_time_ns (snd r) =
                 total_time_ns (compute end_stats) - total_time_ns (compute start_stats)))"
    unfolding S
    by (auto simp: Summarize_server_ok start_counters_def zero_counters_def counters_of_def
          Let_def split: option.splits)
  show ?thesis using 1 2 3 4 by blast
qed

lemma example_client_result:
  "Summarize_client floor_sqrt_u64 example_manager example_timestamps idle_stat idle_stat
     stale_summary =
   Inr (stale_summary\<lparr>batch_size := 1, client_request_count := 1,
          client_duration_ns := 1000000, client_infer_per_sec := 999,
          client_min_latency_ns := 600000, client_max_latency_ns := 600000,
          client_avg_latency_ns := 600000, std_us := 0\<rparr>)"
  by (simp add: client_eval rn_eval example_manager_def example_timestamps_def idle_stat_def)



lemma example_entries:
  "m_model_version example_manager < 0"
  "status_model_version example_manager two_version_model = 3"
  "status_model_version example_manager loading_model = 3"
  "map_of (version_status two_version_model) 3 = Some example_version"
  "map_of (version_status cleared_model) 3 = None"
  "map_of (version_status example_model) 3 = None"
  "map_of (version_status loading_model) 3 =
     Some (empty_ModelVersionStatus\<lparr>ready_state := MODEL_LOADING\<rparr>)"
  "find_infer_stats example_version (m_batch_size example_manager) = Some example_stats"
  "find_infer_stats (empty_ModelVersionStatus\<lparr>ready_state := MODEL_LOADING\<rparr>)
     (m_batch_size example_manager) = None"
  by (simp_all add: status_model_version_def example_manager_def two_version_model_def
        loading_model_def cleared_model_def example_model_def example_version_def
        find_infer_stats_def empty_ModelVersionStatus_def)

theorem version_resolution_and_failure_witness:
  "m_model_version example_manager < 0 \<and>
   status_model_version example_manager two_version_model = 3 \<and>
   map_of (version_status cleared_model) 3 = None \<and>
   fst (Summarize floor_sqrt_u64 example_manager example_timestamps cleared_model
          two_version_model idle_stat idle_stat stale_summary) = Error SUCCESS [] \<and>
   server_request_count
     (snd (Summarize floor_sqrt_u64 example_manager example_timestamps cleared_model
             two_version_model idle_stat idle_stat stale_summary)) = 5 \<and>
   find_infer_stats (empty_ModelVersionStatus\<lparr>ready_state := MODEL_LOADING\<rparr>) 1 = None \<and>
   server_request_count
     (snd (Summarize floor_sqrt_u64 example_manager example_timestamps loading_model
             two_version_model idle_stat idle_stat stale_summary)) = 5 \<and>
   server_request_count
     (snd (Summarize floor_sqrt_u64 example_manager example_timestamps two_version_model
             two_version_model idle_stat idle_stat stale_summary)) = 0"
proof -
  have vend: "map_of (version_status two_version_model)
      (status_model_version example_manager two_version_model) = Some example_version"
    by (simp add: example_entries)
  note t = version_resolution_and_failure [OF example_client_result,
      where end_status = two_version_model, THEN conjunct2, THEN conjunct2, THEN conjunct2,
      rule_format, OF vend example_entries(8), unfolded Let_def example_entries]
  have absent: "fst (Summarize floor_sqrt_u64 example_manager example_timestamps cleared_model
          two_version_model idle_stat idle_stat stale_summary) = Error SUCCESS [] \<and>
     server_request_count
       (snd (Summarize floor_sqrt_u64 example_manager example_timestamps cleared_model
             two_version_model idle_stat idle_stat stale_summary)) = 5"
    using t [of cleared_model] by (simp add: example_entries example_stats_def)
  have no_batch: "server_request_count
     (snd (Summarize floor_sqrt_u64 example_manager example_timestamps loading_model
             two_version_model idle_stat idle_stat stale_summary)) = 5"
    using t [of loading_model] by (simp add: example_entries example_stats_def)
  have present: "server_request_count
     (snd (Summarize floor_sqrt_u64 example_manager example_timestamps two_version_model
             two_version_model idle_stat idle_stat stale_summary)) = 0"
    using t [of two_version_model] by (simp add: example_entries)
  have e: "find_infer_stats (empty_ModelVersionStatus\<lparr>ready_state := MODEL_LOADING\<rparr>) 1 = None"
    by (simp add: find_infer_stats_def empty_ModelVersionStatus_def)
  show ?thesis using absent no_batch present e by (simp add: example_entries)
qed

text \<open>
  Claim C6 as stated fails, with the latest version requested, when the end status
  lists a version that has served nothing yet: version 3 is the largest key of the end
  status, which therefore has an entry for the resolved version; the claim lets the
  step pass, the code fails with "missing inference stats".
\<close>

theorem version_resolution_and_failure_counterexample:
  "m_model_version example_manager = - 1 \<and>
   status_model_version example_manager loading_model = 3 \<and>
   map_of (version_status loading_model) 3 =
     Some (empty_ModelVersionStatus\<lparr>ready_state := MODEL_LOADING\<rparr>) \<and>
   fst (Summarize floor_sqrt_u64 example_manager example_timestamps example_model
          loading_model idle_stat idle_stat stale_summary) =
     Error INTERNAL ''missing inference stats''"
proof -
  have "fst (Summarize floor_sqrt_u64 example_manager example_timestamps example_model
          loading_model idle_stat idle_stat stale_summary) =
     Error INTERNAL ''missing inference stats''"
    unfolding Summarize_def example_client_result
    by (simp add: Summarize_server_def example_entries)
  then show ?thesis by (simp add: example_entries) (simp add: example_manager_def)
qed

section \<open>\<open>Report\<close> and the CSV rows\<close>










section \<open>The Concurrency Controller\<close>

lemma spawn_sync_upto:
  "spawn_sync k (map Infer [0..<n]) = map Infer [0..<max n k]"
proof (induction k "map Infer [0..<n]" arbitrary: n rule: spawn_sync.induct)
  case (1 k)
  show ?case
  proof (cases "k > n")
    case True
    have "map Infer [0..<n] @ [Infer (length (map Infer [0..<n]))] = map Infer [0..<Suc n]"
      by simp
    then have "spawn_sync k (map Infer [0..<n] @ [Infer (length (map Infer [0..<n]))]) =
        map Infer [0..<max (Suc n) k]"
      using "1.hyps" [of "Suc n"] True by simp
    then show ?thesis using True
      by (subst spawn_sync.simps) (simp add: max_def)
  next
    case False
    then show ?thesis by (subst spawn_sync.simps) (simp add: max_def)
  qed
qed

lemma spawn_sync_extends: "\<exists>new. spawn_sync k ths = ths @ new"
proof (induction k ths rule: spawn_sync.induct)
  case (1 k ths)
  show ?case
  proof (cases "k > length ths")
    case True
    then obtain new where "spawn_sync k (ths @ [Infer (length ths)]) = (ths @ [Infer (length ths)]) @ new"
      using 1 by blast
    then show ?thesis using True by (subst spawn_sync.simps) simp
  next
    case False
    then show ?thesis by (subst spawn_sync.simps) simp
  qed
qed

lemma Step_adjust_extends: "\<exists>new. threads (Step_adjust m k c) = threads c @ new"
  using spawn_sync_extends [of "unat k" "threads c"]
  by (auto simp: Step_adjust_def Let_def)

lemma sync_threads_after:
  "\<not> m_async m \<Longrightarrow> \<exists>n. threads (controller_after m ks) = map Infer [0..<n]"
proof (induction ks rule: rev_induct)
  case Nil
  have "([] :: Worker list) = map Infer [0..<0]" by simp
  then show ?case unfolding controller_after_def Create_def by (auto intro: exI [of _ 0])
next
  case (snoc k ks)
  then obtain n where n: "threads (controller_after m ks) = map Infer [0..<n]" by blast
  have "threads (controller_after m (ks @ [k])) = map Infer [0..<max n (unat k)]"
    using snoc.prems n by (simp add: controller_after_def Step_adjust_def Let_def spawn_sync_upto)
  then show ?case by blast
qed

lemma async_threads_after:
  "m_async m \<Longrightarrow> threads (controller_after m ks) = (if ks = [] then [] else [AsyncInfer])"
proof (induction ks rule: rev_induct)
  case Nil
  then show ?case by (simp add: controller_after_def Create_def)
next
  case (snoc k ks)
  then show ?case by (simp add: controller_after_def Step_adjust_def Let_def)
qed

lemma active_upto:
  "filter (\<lambda>w. \<not> parks k w) (map Infer [0..<n]) = map Infer [0..<min n (unat k)]"
proof (induction n)
  case 0
  then show ?case by simp
next
  case (Suc n)
  then show ?case by (auto simp: min_def not_le)
qed

subsection \<open>The asynchronous worker\<close>

lemma refill_full:
  "unat k \<le> length rs \<Longrightarrow> refill k runs rs = Some (Inr rs)"
  by (cases runs) simp_all

lemma refill_fresh:
  "distinct (map fst (rs @ new)) \<Longrightarrow> length rs + length new = unat k \<Longrightarrow>
     refill k (map Inr new @ rest) rs = Some (Inr (rs @ new))"
proof (induction new arbitrary: rs)
  case Nil
  then show ?case by (cases rest) simp_all
next
  case (Cons a new)
  obtain rid t where a: "a = (rid, t)" by (cases a)
  have fresh: "rid \<notin> fst ` set rs" using Cons.prems(1) a by auto
  have "refill k (map Inr new @ rest) (rs @ [a]) = Some (Inr ((rs @ [a]) @ new))"
    using Cons.prems by (intro Cons.IH) auto
  then show ?case using Cons.prems(2) fresh a by (simp add: emplace_def)
qed

lemma IsOk_Code: "IsOk e \<Longrightarrow> Code e \<noteq> UNAVAILABLE"
  by (cases e) auto

text \<open>The completion loop ends by \<open>break\<close> only with fewer than \<open>k\<close> requests in flight.\<close>

lemma drain_below:
  "drain k env rs ts = Some (Inr (rs', ts', env')) \<Longrightarrow> length rs' < unat k"
proof (induction k env rs ts rule: drain.induct)
  case (1 pidx rs ts)
  then show ?case by simp
next
  case (2 pidx a env rs ts)
  then show ?case
    by (auto split: if_splits option.splits)
qed

text \<open>
  It does end when enough of the requests in flight complete: with completions that
  bring the number in flight below \<open>k\<close>, followed by a moment at which nothing is
  ready, the loop removes the completed requests, appends their timestamps and breaks.
\<close>

lemma drain_completions:
  assumes "\<forall>a \<in> set done. IsOk (a_ready a) \<and> IsOk (a_results a)"
    and "Code (a_ready idle) = UNAVAILABLE"
    and "distinct (map a_id done)"
    and "a_id ` set done \<subseteq> fst ` set rs"
    and "length rs - length done < unat k"
  shows "drain k (done @ idle # rest) rs ts =
     Some (Inr (filter (\<lambda>r. fst r \<notin> a_id ` set done) rs,
                ts @ map (\<lambda>a. (the (map_of rs (a_id a)), a_end_time a)) done, rest))"
  using assms
proof (induction "done" arbitrary: rs ts)
  case Nil
  then show ?case by simp
next
  case (Cons a "done")
  let ?rs = "filter (\<lambda>r. fst r \<noteq> a_id a) rs"
  have ok: "IsOk (a_ready a)" "IsOk (a_results a)" using Cons.prems(1) by auto
  have mem: "a_id a \<in> fst ` set rs" using Cons.prems(4) by auto
  then obtain start_time where st: "map_of rs (a_id a) = Some start_time"
    by (metis domI domD dom_map_of_conv_image_fst)
  obtain t where t: "(a_id a, t) \<in> set rs" using mem by auto
  have shorter: "length ?rs < length rs"
    using length_filter_less [OF t, of "\<lambda>r. fst r \<noteq> a_id a"] by simp
  have sub: "a_id ` set done \<subseteq> fst ` set ?rs"
  proof
    fix x
    assume "x \<in> a_id ` set done"
    then obtain d where d: "d \<in> set done" "x = a_id d" by auto
    have "a_id a \<notin> a_id ` set done" using Cons.prems(3) by simp
    then have "x \<noteq> a_id a" using d by (metis imageI)
    moreover have "x \<in> fst ` set rs" using Cons.prems(4) d by auto
    ultimately show "x \<in> fst ` set ?rs" by force
  qed
  have len: "length ?rs - length done < unat k"
    using Cons.prems(5) shorter by simp
  have same: "map_of ?rs (a_id b) = map_of rs (a_id b)" if "b \<in> set done" for b
  proof -
    have "a_id a \<notin> a_id ` set done" using Cons.prems(3) by simp
    then have "a_id b \<noteq> a_id a" using that by (metis imageI)
    then show ?thesis by (induction rs) auto
  qed
  have IH: "drain k (done @ idle # rest) ?rs (ts @ [(start_time, a_end_time a)]) =
     Some (Inr (filter (\<lambda>r. fst r \<notin> a_id ` set done) ?rs,
                (ts @ [(start_time, a_end_time a)])
                  @ map (\<lambda>a. (the (map_of ?rs (a_id a)), a_end_time a)) done, rest))"
    using Cons.prems(1,2,3) sub len by (intro Cons.IH) auto
  have f: "filter (\<lambda>r. fst r \<notin> a_id ` set done) ?rs =
      filter (\<lambda>r. fst r \<notin> a_id ` set (a # done)) rs"
    by (induction rs) auto
  have m: "map (\<lambda>a. (the (map_of ?rs (a_id a)), a_end_time a)) done =
      map (\<lambda>a. (the (map_of rs (a_id a)), a_end_time a)) done"
    using same by simp
  show ?case
    using ok IsOk_Code [OF ok(1)] st IH by (simp add: f m)
qed

text \<open>
  Claim C8.  Whatever the measurement loop does, the controller that \<open>Step\<close> leaves
  has \<open>pause_index\<close> equal to the requested level and its old threads followed by
  the new ones.  In synchronous mode the workers that do not park are exactly those of
  index \<open>0\<close> to \<open>k - 1\<close>, and the thread count is the larger of the old count and
  \<open>k\<close>.  In asynchronous mode there is the one worker.  With \<open>k\<close> or more requests
  in flight (after a lowering \<open>Step\<close>) its refill loop issues none; its completion
  loop, which ends when enough of them complete, ends only with fewer than \<open>k\<close> in
  flight; and from \<open>k\<close> or fewer in flight the refill loop, given requests with
  fresh ids, ends with exactly \<open>k\<close>.  So once the worker has been through its
  completion loop with \<open>pause_index = k\<close>, every refill leaves exactly \<open>k\<close> requests
  in flight.
\<close>

theorem step_sets_concurrency:
  "(let c = controller_after m ks;
        c' = fst (Step sqrt_u64 m k obs c summary)
    in pause_index c' = k \<and>
       (\<exists>new. threads c' = threads c @ new) \<and>
       (\<not> m_async m \<longrightarrow>
          active_workers c' = map Infer [0..<unat k] \<and>
          length (active_workers c') = unat k \<and>
          length (threads c') = max (length (threads c)) (unat k)) \<and>
       (m_async m \<longrightarrow>
          threads c' = [AsyncInfer] \<and>
          (\<forall>rs runs. unat k \<le> length rs \<longrightarrow> refill (pause_index c') runs rs = Some (Inr rs)) \<and>
          (\<forall>rs ts done idle rest.
             (\<forall>a \<in> set done. IsOk (a_ready a) \<and> IsOk (a_results a)) \<longrightarrow>
             Code (a_ready idle) = UNAVAILABLE \<longrightarrow>
             distinct (map a_id done) \<longrightarrow>
             a_id ` set done \<subseteq> fst ` set rs \<longrightarrow>
             length rs - length done < unat k \<longrightarrow>
             drain (pause_index c') (done @ idle # rest) rs ts =
               Some (Inr (filter (\<lambda>r. fst r \<notin> a_id ` set done) rs,
                          ts @ map (\<lambda>a. (the (map_of rs (a_id a)), a_end_time a)) done,
                          rest))) \<and>
          (\<forall>env rs ts rs' ts' env'.
             drain (pause_index c') env rs ts = Some (Inr (rs', ts', env')) \<longrightarrow>
             length rs' < unat k \<and>
             (\<forall>new rest.
                distinct (map fst (rs' @ new)) \<longrightarrow> length new = unat k - length rs' \<longrightarrow>
                refill (pause_index c') (map Inr new @ rest) rs' = Some (Inr (rs' @ new)) \<and>
                length (rs' @ new) = unat k)) \<and>
          (\<forall>rs new rest.
             distinct (map fst (rs @ new)) \<longrightarrow> length rs + length new = unat k \<longrightarrow>
             refill (pause_index c') (map Inr new @ rest) rs = Some (Inr (rs @ new)))))"
proof -
  let ?c = "controller_after m ks"
  let ?c' = "Step_adjust m k ?c"
  have fst: "fst (Step sqrt_u64 m k obs ?c summary) = ?c'"
    by (simp add: Step_def)
  have p: "pause_index ?c' = k"
    by (simp add: Step_adjust_def Let_def)
  have ext: "\<exists>new. threads ?c' = threads ?c @ new"
    by (rule Step_adjust_extends)
  have sync: "active_workers ?c' = map Infer [0..<unat k] \<and>
          length (active_workers ?c') = unat k \<and>
          length (threads ?c') = max (length (threads ?c)) (unat k)"
    if sync_mode: "\<not> m_async m"
  proof -
    obtain n where n: "threads ?c = map Infer [0..<n]"
      using sync_threads_after [OF sync_mode] by blast
    have t: "threads ?c' = map Infer [0..<max n (unat k)]"
      using sync_mode n by (simp add: Step_adjust_def Let_def spawn_sync_upto)
    have a: "active_workers ?c' = map Infer [0..<unat k]"
      by (simp add: active_workers_def p t active_upto)
    show ?thesis using a t n by simp
  qed
  have one: "threads ?c' = [AsyncInfer]" if async_mode: "m_async m"
    using async_mode async_threads_after [OF async_mode, of ks]
    by (simp add: Step_adjust_def Let_def)
  have full: "\<forall>rs runs. unat k \<le> length rs \<longrightarrow> refill k runs rs = Some (Inr rs)"
    by (intro allI impI) (rule refill_full)
  have progress: "\<forall>rs ts done idle rest.
             (\<forall>a \<in> set done. IsOk (a_ready a) \<and> IsOk (a_results a)) \<longrightarrow>
             Code (a_ready idle) = UNAVAILABLE \<longrightarrow>
             distinct (map a_id done) \<longrightarrow>
             a_id ` set done \<subseteq> fst ` set rs \<longrightarrow>
             length rs - length done < unat k \<longrightarrow>
             drain k (done @ idle # rest) rs ts =
               Some (Inr (filter (\<lambda>r. fst r \<notin> a_id ` set done) rs,
                          ts @ map (\<lambda>a. (the (map_of rs (a_id a)), a_end_time a)) done,
                          rest))"
    by (intro allI impI) (rule drain_completions)
  have steady: "\<forall>env rs ts rs' ts' env'.
             drain k env rs ts = Some (Inr (rs', ts', env')) \<longrightarrow>
             length rs' < unat k \<and>
             (\<forall>new rest.
                distinct (map fst (rs' @ new)) \<longrightarrow> length new = unat k - length rs' \<longrightarrow>
                refill k (map Inr new @ rest) rs' = Some (Inr (rs' @ new)) \<and>
                length (rs' @ new) = unat k)"
  proof (intro allI impI conjI)
    fix env rs ts rs' ts' env'
    assume d: "drain k env rs ts = Some (Inr (rs', ts', env'))"
    show l: "length rs' < unat k" using d by (rule drain_below)
    fix new :: "(u64 \<times> timespec) list" and rest :: "(Error + u64 \<times> timespec) list"
    assume f: "distinct (map fst (rs' @ new))" and n: "length new = unat k - length rs'"
    have s: "length rs' + length new = unat k" using l n by simp
    show "refill k (map Inr new @ rest) rs' = Some (Inr (rs' @ new))"
      by (rule refill_fresh [OF f s])
    show "length (rs' @ new) = unat k" using s by simp
  qed
  have fresh: "\<forall>rs new rest.
             distinct (map fst (rs @ new)) \<longrightarrow> length rs + length new = unat k \<longrightarrow>
             refill k (map Inr new @ rest) rs = Some (Inr (rs @ new))"
    by (intro allI impI) (rule refill_fresh)
  have S: "\<not> m_async m \<longrightarrow>
          active_workers ?c' = map Infer [0..<unat k] \<and>
          length (active_workers ?c') = unat k \<and>
          length (threads ?c') = max (length (threads ?c)) (unat k)"
    using sync by (rule impI)
  have A: "m_async m \<longrightarrow>
          threads ?c' = [AsyncInfer] \<and>
          (\<forall>rs runs. unat k \<le> length rs \<longrightarrow> refill (pause_index ?c') runs rs = Some (Inr rs)) \<and>
          (\<forall>rs ts done idle rest.
             (\<forall>a \<in> set done. IsOk (a_ready a) \<and> IsOk (a_results a)) \<longrightarrow>
             Code (a_ready idle) = UNAVAILABLE \<longrightarrow>
             distinct (map a_id done) \<longrightarrow>
             a_id ` set done \<subseteq> fst ` set rs \<longrightarrow>
             length rs - length done < unat k \<longrightarrow>
             drain (pause_index ?c') (done @ idle # rest) rs ts =
               Some (Inr (filter (\<lambda>r. fst r \<notin> a_id ` set done) rs,
                          ts @ map (\<lambda>a. (the (map_of rs (a_id a)), a_end_time a)) done,
                          rest))) \<and>
          (\<forall>env rs ts rs' ts' env'.
             drain (pause_index ?c') env rs ts = Some (Inr (rs', ts', env')) \<longrightarrow>
             length rs' < unat k \<and>
             (\<forall>new rest.
                distinct (map fst (rs' @ new)) \<longrightarrow> length new = unat k - length rs' \<longrightarrow>
                refill (pause_index ?c') (map Inr new @ rest) rs' = Some (Inr (rs' @ new)) \<and>
                length (rs' @ new) = unat k)) \<and>
          (\<forall>rs new rest.
             distinct (map fst (rs @ new)) \<longrightarrow> length rs + length new = unat k \<longrightarrow>
             refill (pause_index ?c') (map Inr new @ rest) rs = Some (Inr (rs @ new)))"
    unfolding p
    by (rule impI) (rule conjI [OF one conjI [OF full conjI [OF progress conjI [OF steady fresh]]]])
  show ?thesis
    unfolding Let_def fst by (rule conjI [OF p conjI [OF ext conjI [OF S A]]])
qed

theorem step_sets_concurrency_witness:
  "\<not> m_async example_manager \<and> m_async async_manager \<and>
   length (threads (controller_after example_manager [4])) = 4 \<and>
   pause_index (fst (Step floor_sqrt_u64 example_manager 2 no_observations
                       (controller_after example_manager [4]) stale_summary)) = 2 \<and>
   length (active_workers (fst (Step floor_sqrt_u64 example_manager 2 no_observations
                       (controller_after example_manager [4]) stale_summary))) = 2 \<and>
   length (threads (fst (Step floor_sqrt_u64 example_manager 2 no_observations
                       (controller_after example_manager [4]) stale_summary))) = 4 \<and>
   threads (fst (Step floor_sqrt_u64 async_manager 2 no_observations
                   (controller_after async_manager [4]) stale_summary)) = [AsyncInfer] \<and>
   pause_index (fst (Step floor_sqrt_u64 async_manager 2 no_observations
                   (controller_after async_manager [4]) stale_summary)) = 2 \<and>
   refill 2 [Inr (14, example_time)] four_in_flight = Some (Inr four_in_flight) \<and>
   drain 2 example_outcomes four_in_flight [] =
     Some (Inr ([(13, example_time)],
                [(example_time, \<lparr>tv_sec = 2, tv_nsec = 0\<rparr>),
                 (example_time, \<lparr>tv_sec = 2, tv_nsec = 0\<rparr>),
                 (example_time, \<lparr>tv_sec = 3, tv_nsec = 0\<rparr>)], [])) \<and>
   refill 2 [Inr (14, example_time)] [(13, example_time)] =
     Some (Inr [(13, example_time), (14, example_time)])"
proof -
  have s: "\<not> m_async example_manager" by (simp add: example_manager_def)
  have a: "m_async async_manager" by (simp add: async_manager_def)
  have four: "length (threads (controller_after example_manager [4])) = 4"
    using step_sets_concurrency [of example_manager "[]" floor_sqrt_u64 4 no_observations stale_summary] s
    by (simp add: Let_def controller_after_def Step_def Create_def)
  note sync = step_sets_concurrency
      [of example_manager "[4]" floor_sqrt_u64 2 no_observations stale_summary]
  note async = step_sets_concurrency
      [of async_manager "[4]" floor_sqrt_u64 2 no_observations stale_summary,
       unfolded Let_def, THEN conjunct2, THEN conjunct2, THEN conjunct2, rule_format, OF a]
  have p2: "pause_index (fst (Step floor_sqrt_u64 async_manager 2 no_observations
      (controller_after async_manager [4]) stale_summary)) = 2"
    using step_sets_concurrency
      [of async_manager "[4]" floor_sqrt_u64 2 no_observations stale_summary]
    unfolding Let_def by blast
  note at = async [THEN conjunct1]
  note full = async [THEN conjunct2, THEN conjunct1, unfolded p2, rule_format]
  note progress = async [THEN conjunct2, THEN conjunct2, THEN conjunct1, unfolded p2,
      rule_format]
  note steady = async [THEN conjunct2, THEN conjunct2, THEN conjunct2, THEN conjunct1,
      unfolded p2, rule_format]
  have r4: "refill 2 [Inr (14, example_time)] four_in_flight = Some (Inr four_in_flight)"
    by (rule full) (simp add: four_in_flight_def)
  have d: "drain 2 ([completed 10 2, completed 11 2, completed 12 3] @ none_ready # [])
      four_in_flight [] =
    Some (Inr (filter (\<lambda>r. fst r \<notin> a_id ` set [completed 10 2, completed 11 2, completed 12 3])
                 four_in_flight,
               [] @ map (\<lambda>a. (the (map_of four_in_flight (a_id a)), a_end_time a))
                      [completed 10 2, completed 11 2, completed 12 3], []))"
    by (rule progress) (auto simp: completed_def none_ready_def four_in_flight_def)
  then have d': "drain 2 example_outcomes four_in_flight [] =
     Some (Inr ([(13, example_time)],
                [(example_time, \<lparr>tv_sec = 2, tv_nsec = 0\<rparr>),
                 (example_time, \<lparr>tv_sec = 2, tv_nsec = 0\<rparr>),
                 (example_time, \<lparr>tv_sec = 3, tv_nsec = 0\<rparr>)], []))"
    by (simp add: example_outcomes_def completed_def four_in_flight_def)
  have r1: "refill 2 (map Inr [(14, example_time)] @ []) [(13, example_time)] =
      Some (Inr ([(13, example_time)] @ [(14, example_time)]))"
    using steady [OF d', THEN conjunct2, rule_format, of "[(14, example_time)]" "[]"]
    by simp
  have sy: "pause_index (fst (Step floor_sqrt_u64 example_manager 2 no_observations
                       (controller_after example_manager [4]) stale_summary)) = 2 \<and>
     length (active_workers (fst (Step floor_sqrt_u64 example_manager 2 no_observations
                       (controller_after example_manager [4]) stale_summary))) = unat (2 :: u64) \<and>
     length (threads (fst (Step floor_sqrt_u64 example_manager 2 no_observations
                       (controller_after example_manager [4]) stale_summary))) =
       max (length (threads (controller_after example_manager [4]))) (unat (2 :: u64))"
    using sync s by (simp add: Let_def)
  show ?thesis using s a four sy at p2 r4 d' r1 by simp
qed

section \<open>The stability detector\<close>

lemma rn_scale_nat: "rn p (2 ^ j * x) = 2 ^ j * rn p x"
  using rn_scale [of p "int j" x] by (simp add: pow2_nat)

lemma rn_scaled: "x' = 2 ^ j * x \<Longrightarrow> rn p x' = 2 ^ j * rn p x"
  by (simp add: rn_scale_nat)

lemma detector_run_snoc:
  "detector_run off (ms @ [(i, l)]) = stability_update off (detector_run off ms) i l"
  by (simp add: detector_run_def)

lemma detector_lists:
  "infer_per_sec (detector_run off ms) = map fst ms \<and>
   latencies (detector_run off ms) = map snd ms"
proof (induction ms rule: rev_induct)
  case Nil
  then show ?case by (simp add: detector_run_def init_StepState_def)
next
  case (snoc m ms)
  obtain i l where m: "m = (i, l)" by (cases m)
  show ?case using snoc
    by (simp add: m detector_run_snoc stability_update_def Let_def)
qed

lemma thirds_snoc_short:
  "length ls < 3 \<Longrightarrow> thirds (ls @ [l]) = thirds ls + l div 3"
  by (simp add: thirds_def)

lemma thirds_snoc_long:
  assumes "3 \<le> length ls"
  shows "thirds (ls @ [l]) = thirds ls + l div 3 - (ls ! (length ls - 3)) div 3"
proof -
  define n where "n = length ls - 3"
  have len: "length ls = n + 3" using assms by (simp add: n_def)
  have d: "drop n ls = ls ! n # drop (Suc n) ls"
    using len by (intro Cons_nth_drop_Suc [symmetric]) simp
  have "drop (length (ls @ [l]) - 3) (ls @ [l]) = drop (Suc n) ls @ [l]"
    by (simp add: len)
  then have "thirds (ls @ [l]) = sum_list (map (\<lambda>l. l div 3) (drop (Suc n) ls)) + l div 3"
    by (simp add: thirds_def)
  moreover have "thirds ls = (ls ! n) div 3 + sum_list (map (\<lambda>l. l div 3) (drop (Suc n) ls))"
    unfolding thirds_def n_def [symmetric] by (subst d) simp
  ultimately show ?thesis by (simp add: n_def)
qed

lemma detector_avg_latency:
  "avg_latency (detector_run off ms) = thirds (map snd ms)"
proof (induction ms rule: rev_induct)
  case Nil
  then show ?case by (simp add: detector_run_def init_StepState_def thirds_def)
next
  case (snoc m ms)
  obtain i l where m: "m = (i, l)" by (cases m)
  note L = detector_lists [of off ms]
  show ?case
  proof (cases "length ms < 3")
    case True
    then show ?thesis using snoc L
      by (auto simp: m detector_run_snoc stability_update_def Let_def recent_k_def
            thirds_snoc_short)
  next
    case False
    then have ge: "3 \<le> length (map snd ms)" by simp
    have "length ms - 3 < length ms" using False by arith
    then have idx: "(map snd ms @ [l]) ! (length ms - 3) = map snd ms ! (length (map snd ms) - 3)"
      by (simp add: nth_append)
    show ?thesis using snoc L False idx
      by (auto simp: m detector_run_snoc stability_update_def Let_def recent_k_def
            thirds_snoc_long [OF ge])
  qed
qed


lemma detector_stable_short:
  "length ms < 3 \<Longrightarrow> stable (detector_run off ms)"
proof (induction ms rule: rev_induct)
  case Nil
  then show ?case by (simp add: detector_run_def init_StepState_def)
next
  case (snoc m ms)
  obtain i l where m: "m = (i, l)" by (cases m)
  show ?case using snoc detector_lists [of off ms]
    by (simp add: m detector_run_snoc stability_update_def Let_def recent_k_def)
qed

lemma detector_stable_long:
  assumes "3 \<le> length ms"
  shows "stable (detector_run off ms) =
         within_band off (avg_ips (detector_run off ms)) (avg_latency (detector_run off ms))
           (drop (length ms - 3) ms)"
proof -
  obtain ms0 i l where ms: "ms = ms0 @ [(i, l)]"
    using assms by (cases ms rule: rev_cases) auto
  have z: "zip (drop n (map fst ms0)) (drop n (map snd ms0)) = drop n ms0" for n
    by (simp add: drop_zip [symmetric] zip_map_fst_snd)
  have len: "2 \<le> length ms0" using assms by (simp add: ms)
  show ?thesis
    unfolding ms detector_run_snoc
    using len detector_lists [of off ms0]
    by (simp add: stability_update_def Let_def recent_k_def z zip_map_fst_snd)
qed

lemma scaled_by_ips: "scaled_by j m m' \<Longrightarrow> (of_int (sint (fst m')) :: rat) = 2 ^ j * of_int (sint (fst m))"
  by (simp add: scaled_by_def)

lemma scaled_by_lat: "scaled_by j m m' \<Longrightarrow> (of_nat (unat (snd m')) :: rat) = 2 ^ j * of_nat (unat (snd m))"
  by (simp add: scaled_by_def)

lemma less_scale: "(2 ^ j * a < 2 ^ j * (b :: rat)) = (a < b)"
  by simp

lemma within_band_scale:
  assumes "list_all2 (scaled_by j) zs zs'"
    and "aips' = 2 ^ j * aips"
    and "(of_nat (unat alat') :: rat) = 2 ^ j * of_nat (unat alat)"
  shows "within_band off aips' alat' zs' = within_band off aips alat zs"
  using assms(1)
proof (induction rule: list_all2_induct)
  case Nil
  then show ?case by simp
next
  case (Cons z zs z' zs')
  obtain i l where z: "z = (i, l)" by (cases z)
  obtain i' l' where z': "z' = (i', l')" by (cases z')
  have i: "(of_int (sint i') :: rat) = 2 ^ j * of_int (sint i)"
    using scaled_by_ips [OF Cons.hyps(1)] by (simp add: z z')
  have l: "(of_nat (unat l') :: rat) = 2 ^ j * of_nat (unat l)"
    using scaled_by_lat [OF Cons.hyps(1)] by (simp add: z z')
  have a: "f64 (aips' * c) = 2 ^ j * f64 (aips * c)" for c
    by (rule rn_scaled) (simp only: assms(2) mult.assoc)
  have fa: "f64 (of_nat (unat alat')) = 2 ^ j * f64 (of_nat (unat alat))"
    by (rule rn_scaled) (rule assms(3))
  have b: "f64 (f64 (of_nat (unat alat')) * c) = 2 ^ j * f64 (f64 (of_nat (unat alat)) * c)" for c
    by (rule rn_scaled) (simp only: fa mult.assoc)
  have fl: "f64 (of_nat (unat l')) = 2 ^ j * f64 (of_nat (unat l))"
    by (rule rn_scaled) (rule l)
  show ?case
    unfolding z z' within_band.simps i a b fl less_scale Cons.IH ..
qed

lemma detector_avg_ips_scale:
  "list_all2 (scaled_by j) ms ms' \<Longrightarrow>
     avg_ips (detector_run off ms') = 2 ^ j * avg_ips (detector_run off ms)"
proof (induction ms arbitrary: ms' rule: rev_induct)
  case Nil
  then show ?case by (simp add: detector_run_def init_StepState_def)
next
  case (snoc m ms)
  obtain ms0' m' where ms': "ms' = ms0' @ [m']" and r0: "list_all2 (scaled_by j) ms ms0'"
    and rm: "scaled_by j m m'"
    using snoc.prems by (auto simp: list_all2_append1 list_all2_Cons1)
  obtain i l where m: "m = (i, l)" by (cases m)
  obtain i' l' where m': "m' = (i', l')" by (cases m')
  have len: "length ms0' = length ms" using r0 by (simp add: list_all2_lengthD)
  have IH: "avg_ips (detector_run off ms0') = 2 ^ j * avg_ips (detector_run off ms)"
    by (rule snoc.IH [OF r0])
  have i: "(of_int (sint i') :: rat) = 2 ^ j * of_int (sint i)"
    using scaled_by_ips [OF rm] by (simp add: m m')
  have third: "f64 (of_int (sint i') / 3) = 2 ^ j * f64 (of_int (sint i) / 3)"
    by (rule rn_scaled) (simp only: i times_divide_eq_right)
  have add: "f64 (avg_ips (detector_run off ms0') + f64 (of_int (sint i') / 3)) =
      2 ^ j * f64 (avg_ips (detector_run off ms) + f64 (of_int (sint i) / 3))"
    by (rule rn_scaled) (simp only: IH third distrib_left)
  show ?case
  proof (cases "length ms < 3")
    case True
    then show ?thesis
      using detector_lists [of off ms] detector_lists [of off ms0'] len
      by (simp add: ms' m m' detector_run_snoc stability_update_def Let_def recent_k_def add
            del: of_int_sint)
  next
    case False
    define k where "k = length ms - 3"
    have k: "k < length ms" using False by (simp add: k_def)
    have old: "scaled_by j (ms ! k) (ms0' ! k)"
      using r0 k by (rule list_all2_nthD)
    have o: "(of_int (sint (fst (ms0' ! k))) :: rat) = 2 ^ j * of_int (sint (fst (ms ! k)))"
      by (rule scaled_by_ips [OF old])
    have othird: "f64 (of_int (sint (fst (ms0' ! k))) / 3) =
        2 ^ j * f64 (of_int (sint (fst (ms ! k))) / 3)"
      by (rule rn_scaled) (simp only: o times_divide_eq_right)
    have sub: "f64 (f64 (avg_ips (detector_run off ms0') + f64 (of_int (sint i') / 3))
                 - f64 (of_int (sint (fst (ms0' ! k))) / 3)) =
        2 ^ j * f64 (f64 (avg_ips (detector_run off ms) + f64 (of_int (sint i) / 3))
                 - f64 (of_int (sint (fst (ms ! k))) / 3))"
      by (rule rn_scaled) (simp only: add othird right_diff_distrib)
    have nth: "(map fst ms @ [i]) ! k = fst (ms ! k)" "(map fst ms0' @ [i']) ! k = fst (ms0' ! k)"
      using k len by (simp_all add: nth_append)
    show ?thesis
      using detector_lists [of off ms] detector_lists [of off ms0'] len False
      by (simp add: ms' m m' detector_run_snoc stability_update_def Let_def recent_k_def
            k_def [symmetric] nth sub del: of_int_sint)
  qed
qed

lemma unat_third: "unat (l div 3 :: u64) = unat l div 3"
  by (simp add: unat_div)

lemma unat_third_le: "unat (l :: u64) div 3 \<le> 6148914691236517205"
proof -
  have "unat l < 2 ^ 64" using unsigned_less [of l, where ?'a = nat] by simp
  then show ?thesis by simp
qed

lemma unat_sum_thirds:
  fixes ls :: "u64 list"
  shows "length ls \<le> 3 \<Longrightarrow>
     unat (sum_list (map (\<lambda>l. l div 3) ls)) = sum_list (map (\<lambda>l. unat l div 3) ls) \<and>
     sum_list (map (\<lambda>l. unat l div 3) ls) \<le> length ls * 6148914691236517205"
proof (induction ls)
  case Nil
  then show ?case by simp
next
  case (Cons l ls)
  then have IH: "unat (sum_list (map (\<lambda>l. l div 3) ls)) = sum_list (map (\<lambda>l. unat l div 3) ls)"
    "sum_list (map (\<lambda>l. unat l div 3) ls) \<le> length ls * 6148914691236517205"
    and len: "length ls \<le> 2"
    by simp_all
  have "unat (l div 3) + unat (sum_list (map (\<lambda>l. l div 3) ls)) < 2 ^ 64"
    using unat_third_le [of l] IH len by (simp add: unat_third)
  then have "unat (l div 3 + sum_list (map (\<lambda>l. l div 3) ls)) =
      unat (l div 3) + unat (sum_list (map (\<lambda>l. l div 3) ls))"
    by (intro unat_add_lem [THEN iffD1]) simp
  then show ?case using unat_third_le [of l] IH by (simp add: unat_third)
qed

lemma unat_thirds:
  "unat (thirds ls) = sum_list (map (\<lambda>l. unat l div 3) (drop (length ls - 3) ls))"
  unfolding thirds_def by (rule unat_sum_thirds [THEN conjunct1]) simp

lemma sum_thirds_scale:
  assumes "list_all2 (\<lambda>l l'. unat l' = 2 ^ j * unat l) ls ls'"
    and "list_all (\<lambda>l. 3 dvd unat l) ls"
  shows "sum_list (map (\<lambda>l. unat l div 3) ls') = 2 ^ j * sum_list (map (\<lambda>l. unat l div 3) ls)"
  using assms
proof (induction rule: list_all2_induct)
  case Nil
  then show ?case by simp
next
  case (Cons l ls l' ls')
  have "3 dvd unat l" using Cons.prems by simp
  then have "2 ^ j * unat l div 3 = 2 ^ j * (unat l div 3)"
    by (simp add: div_mult_swap)
  then show ?case using Cons by (simp add: distrib_left)
qed

lemma thirds_scale:
  assumes r: "list_all2 (scaled_by j) ms ms'"
    and d: "list_all (\<lambda>m. 3 dvd unat (snd m)) ms"
  shows "unat (thirds (map snd ms')) = 2 ^ j * unat (thirds (map snd ms))"
proof -
  have len: "length ms' = length ms" using r by (simp add: list_all2_lengthD)
  have "list_all2 (\<lambda>m m'. unat (snd m') = 2 ^ j * unat (snd m)) ms ms'"
    using r by (rule list_all2_mono) (simp add: scaled_by_def)
  then have r': "list_all2 (\<lambda>l l'. unat l' = 2 ^ j * unat l)
      (drop (length ms - 3) (map snd ms)) (drop (length ms - 3) (map snd ms'))"
    by (intro list_all2_dropI) (simp add: list_all2_map1 list_all2_map2)
  have d': "list_all (\<lambda>l. 3 dvd unat l) (drop (length ms - 3) (map snd ms))"
  proof -
    have "set (drop (length ms - 3) (map snd ms)) \<subseteq> snd ` set ms"
      using set_drop_subset [of "length ms - 3" "map snd ms"] by simp
    then show ?thesis using d by (auto simp: list_all_iff)
  qed
  show ?thesis
    unfolding unat_thirds using sum_thirds_scale [OF r' d'] by (simp add: len)
qed

text \<open>
  Claim C3, amended.  Multiplying every throughput sample and every latency sample by
  the same power of two leaves the decision of the stability detector as it is,
  provided every latency sample is a multiple of 3 (and the scaled samples fit their
  types).
\<close>

theorem stability_scale_invariant:
  assumes r: "list_all2 (scaled_by j) ms ms'"
    and d: "list_all (\<lambda>m. 3 dvd unat (snd m)) ms"
  shows "stable (detector_run stable_offset ms') = stable (detector_run stable_offset ms)"
proof (cases "length ms < 3")
  case True
  moreover have "length ms' = length ms" using r by (simp add: list_all2_lengthD)
  ultimately show ?thesis by (simp add: detector_stable_short)
next
  case False
  have len: "length ms' = length ms" using r by (simp add: list_all2_lengthD)
  have ge: "3 \<le> length ms" "3 \<le> length ms'" using False len by simp_all
  have a: "avg_ips (detector_run stable_offset ms') =
      2 ^ j * avg_ips (detector_run stable_offset ms)"
    by (rule detector_avg_ips_scale [OF r])
  have "unat (avg_latency (detector_run stable_offset ms')) =
      2 ^ j * unat (avg_latency (detector_run stable_offset ms))"
    unfolding detector_avg_latency by (rule thirds_scale [OF r d])
  then have "(of_nat (unat (avg_latency (detector_run stable_offset ms'))) :: rat) =
      of_nat (2 ^ j * unat (avg_latency (detector_run stable_offset ms)))"
    by (simp only:)
  then have l: "(of_nat (unat (avg_latency (detector_run stable_offset ms'))) :: rat) =
      2 ^ j * of_nat (unat (avg_latency (detector_run stable_offset ms)))"
    by (simp only: of_nat_mult of_nat_power of_nat_numeral)
  have z: "list_all2 (scaled_by j) (drop (length ms - 3) ms) (drop (length ms' - 3) ms')"
    unfolding len using r by (rule list_all2_dropI)
  show ?thesis
    unfolding detector_stable_long [OF ge(1)] detector_stable_long [OF ge(2)]
    by (rule within_band_scale [OF z a l])
qed

lemmas detector_eval =
  detector_run_def stability_update_def init_StepState_def recent_k_def Let_def

lemma steady_is_stable: "stable (detector_run double_0_1 steady_samples)"
  by (simp add: detector_eval steady_samples_def double_0_1_def rn_eval)

lemma unit_not_stable: "\<not> stable (detector_run double_0_1 unit_samples)"
  by (simp add: detector_eval unit_samples_def double_0_1_def rn_eval)

lemma tripled_stable: "stable (detector_run double_0_1 tripled_samples)"
  by (simp add: detector_eval tripled_samples_def double_0_1_def rn_eval)


theorem stability_scale_invariant_witness:
  "list_all2 (scaled_by 1) steady_samples doubled_samples \<and>
   list_all (\<lambda>m. 3 dvd unat (snd m)) steady_samples \<and>
   stable (detector_run double_0_1 steady_samples) \<and>
   stable (detector_run double_0_1 doubled_samples)"
proof -
  have r: "list_all2 (scaled_by 1) steady_samples doubled_samples"
    by (simp add: steady_samples_def doubled_samples_def scaled_by_def)
  have d: "list_all (\<lambda>m. 3 dvd unat (snd m)) steady_samples"
    by (simp add: steady_samples_def)
  show ?thesis
    using stability_scale_invariant [OF r d, of double_0_1] steady_is_stable r d by simp
qed

text \<open>
  Claim C3 as stated fails for the factor 3.  With three measurements of 1 ns the
  integer mean of the latencies is \<open>0 + 0 + 0\<close>, every sample lies above the band and
  the run is not stable; with the same measurements tripled the mean is 3 and the run is
  stable.
\<close>

theorem stability_scale_invariant_counterexample:
  "map (\<lambda>m. (3 * fst m, 3 * snd m)) unit_samples = tripled_samples \<and>
   \<not> stable (detector_run double_0_1 unit_samples) \<and>
   stable (detector_run double_0_1 tripled_samples)"
  using unit_not_stable tripled_stable
  by (simp add: unit_samples_def tripled_samples_def)

text \<open>The loop of \<open>Step\<close> runs the detector on the measurements it takes.\<close>

lemma Step_loop_detector:
  "Step_loop sqrt_u64 m obs (detector_run (m_stable_offset m) ms0) s0 = Some (err, st, s) \<Longrightarrow>
     \<exists>ms. st = detector_run (m_stable_offset m) (ms0 @ ms)"
proof (induction obs arbitrary: ms0 s0)
  case Nil
  then show ?case by simp
next
  case (Cons ob obs)
  obtain e s' where M: "Measure sqrt_u64 m (o_window ob) s0 = (e, s')"
    by (cases "Measure sqrt_u64 m (o_window ob) s0")
  let ?st' = "stability_update (m_stable_offset m) (detector_run (m_stable_offset m) ms0)
      (client_infer_per_sec s') (client_avg_latency_ns s')"
  have st': "?st' = detector_run (m_stable_offset m)
      (ms0 @ [(client_infer_per_sec s', client_avg_latency_ns s')])"
    by (simp add: detector_run_snoc)
  show ?case
  proof (cases "\<not> o_threads_ok ob \<or> \<not> IsOk e")
    case True
    then have "st = detector_run (m_stable_offset m) (ms0 @ [])"
      using Cons.prems M by (auto split: if_splits)
    then show ?thesis by blast
  next
    case False
    show ?thesis
    proof (cases "(recent_k \<le> length (infer_per_sec ?st') \<and> stable ?st') \<or>
        \<not> (\<not> o_early_exit ob \<and>
           length (infer_per_sec ?st') < unat (m_max_measurement_count m))")
      case True
      then have "st = ?st'"
        using Cons.prems M False by (auto simp: Let_def split: if_splits)
      then show ?thesis unfolding st' by blast
    next
      case stay: False
      then have "Step_loop sqrt_u64 m obs ?st' s' = Some (err, st, s)"
        using Cons.prems M False by (auto simp: Let_def split: if_splits)
      then obtain ms where "st = detector_run (m_stable_offset m)
          ((ms0 @ [(client_infer_per_sec s', client_avg_latency_ns s')]) @ ms)"
        unfolding st' using Cons.IH by blast
      then show ?thesis by (metis append.assoc)
    qed
  qed
qed

end
